theory Spec2Isabelle
  imports Main "HOL-Library.Sublist"
begin

section \<open>Knuth-Morris-Pratt and Z-algorithm string matching\<close>

text \<open>
  A shallow embedding of the four routines of the repository:
  \<^verbatim>\<open>computeLPS\<close> and \<^verbatim>\<open>KMPSearch\<close> (knuth_morris_pratt.cc), and
  \<^verbatim>\<open>computeZArray\<close> and \<^verbatim>\<open>zAlgorithmSearch\<close> (the Z-algorithm file).

  Strings and vectors are lists. The source stores every \<^verbatim>\<open>length()\<close> in a 32-bit
  \<^verbatim>\<open>int\<close>: \<open>to_int32\<close> is that narrowing (the low 32 bits, read in two's complement),
  so a string of \<open>2^31\<close> symbols or more has a wrapped, possibly negative, length in the
  code. A \<^verbatim>\<open>vector<int>\<close> built from a negative \<^verbatim>\<open>int\<close> throws
  \<^verbatim>\<open>std::length_error\<close> (the size converts to a value above \<^verbatim>\<open>max_size()\<close>): the
  error \<open>LengthError\<close> of \<open>new_vector\<close>. All other \<^verbatim>\<open>int\<close> variables are indices and
  match lengths; they are modelled as \<open>int\<close>, and the invariants below keep them between
  \<open>-1\<close> and the narrowed length, so none of them can wrap. Every \<^verbatim>\<open>operator[]\<close> of the
  source is a checked access here: an index outside the container gives the error
  \<open>OutOfBounds\<close>. Every loop is a \<^theory_text>\<open>partial_function\<close> in the option monad: a run
  that never leaves the loop has the value \<open>None\<close>. So a result is \<open>None\<close> (no return),
  \<open>Some (Inl e)\<close> for an error \<open>e\<close>, or \<open>Some (Inr v)\<close> (the returned vector).
\<close>

subsection \<open>Lengths, vectors and checked accesses\<close>

datatype error = OutOfBounds | LengthError

type_synonym 'a outcome = "(error + 'a) option"

definition ret :: "'a \<Rightarrow> 'a outcome" where
  "ret v = Some (Inr v)"

definition bind_o :: "'a outcome \<Rightarrow> ('a \<Rightarrow> 'b outcome) \<Rightarrow> 'b outcome" where
  "bind_o x f = (case x of None \<Rightarrow> None | Some (Inl e) \<Rightarrow> Some (Inl e) | Some (Inr v) \<Rightarrow> f v)"

definition to_int32 :: "nat \<Rightarrow> int" where
  "to_int32 n = (int n + 2 ^ 31) mod 2 ^ 32 - 2 ^ 31"

definition new_vector :: "int \<Rightarrow> 'a \<Rightarrow> 'a list outcome" where
  "new_vector n v = (if n < 0 then Some (Inl LengthError) else ret (replicate (nat n) v))"

definition idx :: "'a list \<Rightarrow> int \<Rightarrow> 'a option" where
  "idx xs i = (if 0 \<le> i \<and> i < int (length xs) then Some (xs ! nat i) else None)"

definition rd :: "'a list \<Rightarrow> int \<Rightarrow> 'a outcome" where
  "rd xs i = (case idx xs i of None \<Rightarrow> Some (Inl OutOfBounds) | Some v \<Rightarrow> ret v)"

definition wr :: "'a list \<Rightarrow> int \<Rightarrow> 'a \<Rightarrow> 'a list outcome" where
  "wr xs i v = (case idx xs i of None \<Rightarrow> Some (Inl OutOfBounds) | Some _ \<Rightarrow> ret (xs[nat i := v]))"

subsection \<open>computeLPS\<close>

text \<open>One pass through the body of \<^verbatim>\<open>while (i < m)\<close>; the state is \<open>(i, j, lps)\<close>.\<close>

definition computeLPS_body ::
  "string \<Rightarrow> int \<Rightarrow> int \<Rightarrow> int list \<Rightarrow> (int \<times> int \<times> int list) outcome" where
  "computeLPS_body pattern i j lps =
     bind_o (rd pattern i) (\<lambda>a.
     bind_o (rd pattern j) (\<lambda>b.
       if a = b then
         bind_o (wr lps i (j + 1)) (\<lambda>lps'. ret (i + 1, j + 1, lps'))
       else if j \<noteq> 0 then
         bind_o (rd lps (j - 1)) (\<lambda>j'. ret (i, j', lps))
       else
         bind_o (wr lps i 0) (\<lambda>lps'. ret (i + 1, j, lps'))))"

partial_function (option) computeLPS_loop ::
  "string \<Rightarrow> int \<Rightarrow> int \<Rightarrow> int \<Rightarrow> int list \<Rightarrow> int list outcome" where
  "computeLPS_loop pattern m i j lps =
     (if i < m then
        (case computeLPS_body pattern i j lps of
           None \<Rightarrow> None
         | Some (Inl e) \<Rightarrow> Some (Inl e)
         | Some (Inr (i', j', lps')) \<Rightarrow> computeLPS_loop pattern m i' j' lps')
      else ret lps)"

declare computeLPS_loop.simps [code]

definition computeLPS :: "string \<Rightarrow> int list outcome" where
  "computeLPS pattern =
     (let m = to_int32 (length pattern)
      in bind_o (new_vector m 0) (\<lambda>lps.
           computeLPS_loop pattern m 1 0 lps))"

subsection \<open>KMPSearch\<close>

text \<open>
  The body of \<^verbatim>\<open>while (i < n)\<close> is two statements in sequence: the \<^verbatim>\<open>if\<close> that
  consumes a matching symbol, then the \<^verbatim>\<open>if (j == m) ... else if ...\<close> that folds back.
\<close>

definition KMPSearch_advance ::
  "string \<Rightarrow> string \<Rightarrow> int \<Rightarrow> int \<Rightarrow> int list \<Rightarrow> (int \<times> int \<times> int list) outcome" where
  "KMPSearch_advance text pattern i j lps =
     bind_o (rd pattern j) (\<lambda>a.
     bind_o (rd text i) (\<lambda>b.
       if a = b then
         bind_o (wr lps i (j + 1)) (\<lambda>lps'. ret (i + 1, j + 1, lps'))
       else ret (i, j, lps)))"

definition KMPSearch_fold ::
  "string \<Rightarrow> string \<Rightarrow> int \<Rightarrow> int \<Rightarrow> int list \<Rightarrow> int \<Rightarrow> int \<Rightarrow> int list \<Rightarrow>
     (int \<times> int \<times> int list) outcome" where
  "KMPSearch_fold text pattern n m lps_pattern i j lps =
     (if j = m then
        bind_o (rd lps_pattern (j - 1)) (\<lambda>j'. ret (i, j', lps))
      else if i < n then
        bind_o (rd pattern j) (\<lambda>a.
        bind_o (rd text i) (\<lambda>b.
          if a \<noteq> b then
            (if j \<noteq> 0 then
               bind_o (rd lps_pattern (j - 1)) (\<lambda>j'. ret (i, j', lps))
             else
               bind_o (wr lps i 0) (\<lambda>lps'. ret (i + 1, j, lps')))
          else ret (i, j, lps)))
      else ret (i, j, lps))"

definition KMPSearch_body ::
  "string \<Rightarrow> string \<Rightarrow> int \<Rightarrow> int \<Rightarrow> int list \<Rightarrow> int \<Rightarrow> int \<Rightarrow> int list \<Rightarrow>
     (int \<times> int \<times> int list) outcome" where
  "KMPSearch_body text pattern n m lps_pattern i j lps =
     bind_o (KMPSearch_advance text pattern i j lps) (\<lambda>(i1, j1, lps1).
       KMPSearch_fold text pattern n m lps_pattern i1 j1 lps1)"

partial_function (option) KMPSearch_loop ::
  "string \<Rightarrow> string \<Rightarrow> int \<Rightarrow> int \<Rightarrow> int list \<Rightarrow> int \<Rightarrow> int \<Rightarrow> int list \<Rightarrow> int list outcome"
  where
  "KMPSearch_loop text pattern n m lps_pattern i j lps =
     (if i < n then
        (case KMPSearch_body text pattern n m lps_pattern i j lps of
           None \<Rightarrow> None
         | Some (Inl e) \<Rightarrow> Some (Inl e)
         | Some (Inr (i', j', lps')) \<Rightarrow> KMPSearch_loop text pattern n m lps_pattern i' j' lps')
      else ret lps)"

declare KMPSearch_loop.simps [code]

definition KMPSearch :: "string \<Rightarrow> string \<Rightarrow> int list outcome" where
  "KMPSearch text pattern =
     (let n = to_int32 (length text);
          m = to_int32 (length pattern)
      in if m = 0 then ret []
         else bind_o (computeLPS pattern) (\<lambda>lps_pattern.
              bind_o (new_vector n 0) (\<lambda>lps.
                KMPSearch_loop text pattern n m lps_pattern 0 0 lps)))"

subsection \<open>computeZArray\<close>

text \<open>The guard \<^verbatim>\<open>R < n && s[R - L] == s[R]\<close>, evaluated left to right.\<close>

definition computeZArray_guard :: "string \<Rightarrow> int \<Rightarrow> int \<Rightarrow> int \<Rightarrow> bool outcome" where
  "computeZArray_guard s n L R =
     (if R < n then
        bind_o (rd s (R - L)) (\<lambda>a.
        bind_o (rd s R) (\<lambda>b. ret (a = b)))
      else ret False)"

text \<open>The loop \<^verbatim>\<open>while (guard) R++\<close>; it returns the final \<open>R\<close>.\<close>

partial_function (option) computeZArray_while ::
  "string \<Rightarrow> int \<Rightarrow> int \<Rightarrow> int \<Rightarrow> int outcome" where
  "computeZArray_while s n L R =
     (case computeZArray_guard s n L R of
        None \<Rightarrow> None
      | Some (Inl e) \<Rightarrow> Some (Inl e)
      | Some (Inr c) \<Rightarrow> if c then computeZArray_while s n L (R + 1) else ret R)"

declare computeZArray_while.simps [code]

text \<open>The body of the \<^verbatim>\<open>for\<close> loop; the state besides \<open>i\<close> is \<open>(L, R, Z)\<close>.\<close>

definition computeZArray_body ::
  "string \<Rightarrow> int \<Rightarrow> int \<Rightarrow> int \<Rightarrow> int \<Rightarrow> int list \<Rightarrow> (int \<times> int \<times> int list) outcome" where
  "computeZArray_body s n i L R Z =
     (if i > R then
        bind_o (computeZArray_while s n i i) (\<lambda>R'.
        bind_o (wr Z i (R' - i)) (\<lambda>Z'. ret (i, R' - 1, Z')))
      else
        (let k = i - L in
         bind_o (rd Z k) (\<lambda>zk.
           if zk < R - i + 1 then
             bind_o (rd Z k) (\<lambda>zk'.
             bind_o (wr Z i zk') (\<lambda>Z'. ret (L, R, Z')))
           else
             bind_o (computeZArray_while s n i R) (\<lambda>R'.
             bind_o (wr Z i (R' - i)) (\<lambda>Z'. ret (i, R' - 1, Z'))))))"

partial_function (option) computeZArray_for ::
  "string \<Rightarrow> int \<Rightarrow> int \<Rightarrow> int \<Rightarrow> int \<Rightarrow> int list \<Rightarrow> int list outcome" where
  "computeZArray_for s n i L R Z =
     (if i < n then
        (case computeZArray_body s n i L R Z of
           None \<Rightarrow> None
         | Some (Inl e) \<Rightarrow> Some (Inl e)
         | Some (Inr (L', R', Z')) \<Rightarrow> computeZArray_for s n (i + 1) L' R' Z')
      else ret Z)"

declare computeZArray_for.simps [code]

definition computeZArray :: "string \<Rightarrow> int list outcome" where
  "computeZArray s =
     (let n = to_int32 (length s)
      in if n = 0 then ret []
         else bind_o (new_vector n 0) (\<lambda>Z0.
              bind_o (wr Z0 0 n) (\<lambda>Z.
                computeZArray_for s n 1 0 0 Z)))"

subsection \<open>zAlgorithmSearch\<close>

text \<open>
  In the source \<open>n\<close> is the length of the pattern and \<open>m\<close> the length of the text.
  The guard is \<^verbatim>\<open>R < m && (R - L) < n && text[R] == pattern[R - L]\<close>.
\<close>

definition zAlgorithmSearch_guard ::
  "string \<Rightarrow> string \<Rightarrow> int \<Rightarrow> int \<Rightarrow> int \<Rightarrow> int \<Rightarrow> bool outcome" where
  "zAlgorithmSearch_guard text pattern n m L R =
     (if R < m \<and> R - L < n then
        bind_o (rd text R) (\<lambda>a.
        bind_o (rd pattern (R - L)) (\<lambda>b. ret (a = b)))
      else ret False)"

partial_function (option) zAlgorithmSearch_while ::
  "string \<Rightarrow> string \<Rightarrow> int \<Rightarrow> int \<Rightarrow> int \<Rightarrow> int \<Rightarrow> int outcome" where
  "zAlgorithmSearch_while text pattern n m L R =
     (case zAlgorithmSearch_guard text pattern n m L R of
        None \<Rightarrow> None
      | Some (Inl e) \<Rightarrow> Some (Inl e)
      | Some (Inr c) \<Rightarrow>
          if c then zAlgorithmSearch_while text pattern n m L (R + 1) else ret R)"

declare zAlgorithmSearch_while.simps [code]

definition zAlgorithmSearch_body ::
  "string \<Rightarrow> string \<Rightarrow> int \<Rightarrow> int \<Rightarrow> int list \<Rightarrow> int \<Rightarrow> int \<Rightarrow> int \<Rightarrow> int list \<Rightarrow>
     (int \<times> int \<times> int list) outcome" where
  "zAlgorithmSearch_body text pattern n m Z_pattern i L R Z =
     bind_o (wr Z i 0) (\<lambda>Z0.
       if i > R then
         bind_o (zAlgorithmSearch_while text pattern n m i i) (\<lambda>R'.
         bind_o (wr Z0 i (R' - i)) (\<lambda>Z'. ret (i, R' - 1, Z')))
       else
         (let k = i - L in
          bind_o (rd Z_pattern k) (\<lambda>zk.
            if zk < R - i + 1 then
              bind_o (rd Z_pattern k) (\<lambda>zk'.
              bind_o (wr Z0 i zk') (\<lambda>Z'. ret (L, R, Z')))
            else
              bind_o (zAlgorithmSearch_while text pattern n m i R) (\<lambda>R'.
              bind_o (wr Z0 i (R' - i)) (\<lambda>Z'. ret (i, R' - 1, Z'))))))"

partial_function (option) zAlgorithmSearch_for ::
  "string \<Rightarrow> string \<Rightarrow> int \<Rightarrow> int \<Rightarrow> int list \<Rightarrow> int \<Rightarrow> int \<Rightarrow> int \<Rightarrow> int list \<Rightarrow>
     int list outcome" where
  "zAlgorithmSearch_for text pattern n m Z_pattern i L R Z =
     (if i < m then
        (case zAlgorithmSearch_body text pattern n m Z_pattern i L R Z of
           None \<Rightarrow> None
         | Some (Inl e) \<Rightarrow> Some (Inl e)
         | Some (Inr (L', R', Z')) \<Rightarrow>
             zAlgorithmSearch_for text pattern n m Z_pattern (i + 1) L' R' Z')
      else ret Z)"

declare zAlgorithmSearch_for.simps [code]

definition zAlgorithmSearch :: "string \<Rightarrow> string \<Rightarrow> int list outcome" where
  "zAlgorithmSearch text pattern =
     (let n = to_int32 (length pattern);
          m = to_int32 (length text)
      in bind_o (new_vector m 0) (\<lambda>Z.
           if n = 0 then ret Z
           else bind_o (computeZArray pattern) (\<lambda>Z_pattern.
                  zAlgorithmSearch_for text pattern n m Z_pattern 0 0 (- 1) Z)))"

subsection \<open>Specification vocabulary\<close>

text \<open>
  \<open>pre_suf p w k\<close>: the first \<open>k\<close> symbols of \<open>p\<close> are the last \<open>k\<close> symbols of \<open>w\<close>.
  \<open>pre_pre p w k\<close>: the first \<open>k\<close> symbols of \<open>p\<close> are the first \<open>k\<close> symbols of \<open>w\<close>.
\<close>

definition pre_suf :: "'a list \<Rightarrow> 'a list \<Rightarrow> nat \<Rightarrow> bool" where
  "pre_suf p w k \<longleftrightarrow> k \<le> length p \<and> k \<le> length w \<and> take k p = drop (length w - k) w"

definition pre_pre :: "'a list \<Rightarrow> 'a list \<Rightarrow> nat \<Rightarrow> bool" where
  "pre_pre p w k \<longleftrightarrow> k \<le> length p \<and> k \<le> length w \<and> take k p = take k w"

text \<open>
  \<open>lps_at p i v\<close>: \<open>v\<close> is the length of the longest proper prefix of \<open>p[0..i]\<close> that is
  also a suffix of \<open>p[0..i]\<close>.
\<close>

definition lps_at :: "'a list \<Rightarrow> nat \<Rightarrow> nat \<Rightarrow> bool" where
  "lps_at p i v \<longleftrightarrow>
     v \<le> i \<and> pre_suf p (take (Suc i) p) v \<and>
     (\<forall>k. k \<le> i \<and> pre_suf p (take (Suc i) p) k \<longrightarrow> k \<le> v)"

text \<open>
  The invariant of the loop of \<open>computeLPS\<close> at its head: \<open>j\<close> is a border of \<open>p[0..i)\<close>,
  no border of \<open>p[0..i]\<close> is longer than \<open>j + 1\<close>, and the entries below \<open>i\<close> are final.
\<close>

definition lps_inv :: "'a list \<Rightarrow> nat \<Rightarrow> nat \<Rightarrow> int list \<Rightarrow> bool" where
  "lps_inv p i j lps \<longleftrightarrow>
     length lps = length p \<and> 1 \<le> i \<and> i \<le> length p \<and> j < i \<and>
     pre_suf p (take i p) j \<and>
     (i < length p \<longrightarrow> (\<forall>k. k \<le> i \<and> pre_suf p (take (Suc i) p) k \<longrightarrow> k \<le> Suc j)) \<and>
     (\<forall>k<i. 0 \<le> lps ! k \<and> lps_at p k (nat (lps ! k)))"

text \<open>
  \<open>kmp_at p t i v\<close>: \<open>v\<close> is the length of the longest prefix of \<open>p\<close> that is a suffix of
  \<open>t[0..i]\<close>.
\<close>

definition kmp_at :: "'a list \<Rightarrow> 'a list \<Rightarrow> nat \<Rightarrow> nat \<Rightarrow> bool" where
  "kmp_at p t i v \<longleftrightarrow>
     pre_suf p (take (Suc i) t) v \<and> (\<forall>k. pre_suf p (take (Suc i) t) k \<longrightarrow> k \<le> v)"

text \<open>\<open>lps_table p tab\<close>: \<open>tab\<close> is the finished array of \<open>computeLPS\<close> for \<open>p\<close>.\<close>

definition lps_table :: "'a list \<Rightarrow> int list \<Rightarrow> bool" where
  "lps_table p tab \<longleftrightarrow>
     length tab = length p \<and> (\<forall>k<length p. 0 \<le> tab ! k \<and> lps_at p k (nat (tab ! k)))"

text \<open>
  The invariant of the loop of \<open>KMPSearch\<close>: the first \<open>j\<close> symbols of \<open>p\<close> end at
  \<open>t[i - 1]\<close>, no match ending at \<open>t[i]\<close> is longer than \<open>j + 1\<close>, and the entries
  below \<open>i\<close> are final. At the head of the loop \<open>j < length p\<close> holds besides.
\<close>

definition kmp_inv :: "'a list \<Rightarrow> 'a list \<Rightarrow> nat \<Rightarrow> nat \<Rightarrow> int list \<Rightarrow> bool" where
  "kmp_inv p t i j out \<longleftrightarrow>
     length out = length t \<and> i \<le> length t \<and> j \<le> length p \<and>
     pre_suf p (take i t) j \<and>
     (i < length t \<longrightarrow> (\<forall>k. pre_suf p (take (Suc i) t) k \<longrightarrow> k \<le> Suc j)) \<and>
     (\<forall>k<i. 0 \<le> out ! k \<and> kmp_at p t k (nat (out ! k)))"

text \<open>
  \<open>z_at p w v\<close>: \<open>v\<close> is the length of the longest common prefix of \<open>p\<close> and \<open>w\<close>.
\<close>

definition z_at :: "'a list \<Rightarrow> 'a list \<Rightarrow> nat \<Rightarrow> bool" where
  "z_at p w v \<longleftrightarrow> pre_pre p w v \<and> (\<forall>k. pre_pre p w k \<longrightarrow> k \<le> v)"

text \<open>\<open>z_table p tab\<close>: \<open>tab\<close> is the finished array of \<open>computeZArray\<close> for \<open>p\<close>.\<close>

definition z_table :: "'a list \<Rightarrow> int list \<Rightarrow> bool" where
  "z_table p tab \<longleftrightarrow>
     length tab = length p \<and>
     (\<forall>k<length p. 0 \<le> tab ! k \<and> z_at p (drop k p) (nat (tab ! k)))"

text \<open>
  The window \<open>[L, Re)\<close> of \<open>t\<close> (the source's \<open>R\<close> is \<open>Re - 1\<close>) is a copy of the first
  \<open>Re - L\<close> symbols of \<open>p\<close>.
\<close>

definition z_window :: "'a list \<Rightarrow> 'a list \<Rightarrow> nat \<Rightarrow> nat \<Rightarrow> bool" where
  "z_window p t L Re \<longleftrightarrow> L \<le> Re \<and> Re \<le> length t \<and> pre_pre p (drop L t) (Re - L)"

text \<open>
  The invariants of the two \<^verbatim>\<open>for\<close> loops, at index \<open>i\<close>: the window is a copy of a prefix,
  it starts before \<open>i\<close> whenever \<open>i\<close> lies inside it, and the entries below \<open>i\<close> are final.
\<close>

definition z_inv :: "'a list \<Rightarrow> nat \<Rightarrow> nat \<Rightarrow> nat \<Rightarrow> int list \<Rightarrow> bool" where
  "z_inv s i L Re Z \<longleftrightarrow>
     length Z = length s \<and> 1 \<le> i \<and> i \<le> length s \<and> L < i \<and> z_window s s L Re \<and>
     (i < Re \<longrightarrow> 1 \<le> L) \<and>
     (\<forall>k<i. 0 \<le> Z ! k \<and> z_at s (drop k s) (nat (Z ! k)))"

definition zs_inv :: "'a list \<Rightarrow> 'a list \<Rightarrow> nat \<Rightarrow> nat \<Rightarrow> nat \<Rightarrow> int list \<Rightarrow> bool" where
  "zs_inv p t i L Re Z \<longleftrightarrow>
     length Z = length t \<and> i \<le> length t \<and> L \<le> i \<and> z_window p t L Re \<and>
     (i < Re \<longrightarrow> L < i) \<and>
     (\<forall>k<i. 0 \<le> Z ! k \<and> z_at p (drop k t) (nat (Z ! k)))"

text \<open>
  \<open>seen xs\<close>: the part of the string \<open>xs\<close> below its narrowed length, which is all the
  code looks at (the whole of \<open>xs\<close> when it has fewer than \<open>2^31\<close> symbols).
\<close>

definition seen :: "'a list \<Rightarrow> 'a list" where
  "seen xs = take (nat (to_int32 (length xs))) xs"

text \<open>
  \<open>proper_border u k\<close>: the proper prefix of \<open>u\<close> of length \<open>k\<close> is also a suffix of \<open>u\<close>.
  \<open>occurs_at p t j\<close>: a full copy of \<open>p\<close> starts at offset \<open>j\<close> of \<open>t\<close>.
\<close>

definition proper_border :: "'a list \<Rightarrow> nat \<Rightarrow> bool" where
  "proper_border u k \<longleftrightarrow> k < length u \<and> take k u = drop (length u - k) u"

definition occurs_at :: "'a list \<Rightarrow> 'a list \<Rightarrow> nat \<Rightarrow> bool" where
  "occurs_at p t j \<longleftrightarrow> j + length p \<le> length t \<and> take (length p) (drop j t) = p"

section \<open>Verification\<close>

subsection \<open>The narrowed length\<close>

lemma to_int32_small: "n < 2 ^ 31 \<Longrightarrow> to_int32 n = int n"
  by (simp add: to_int32_def)

lemma to_int32_le: "to_int32 n \<le> int n"
proof -
  have "(int n + 2 ^ 31) mod 2 ^ 32 \<le> int n + 2 ^ 31"
    by (rule zmod_le_nonneg_dividend) simp
  then show ?thesis by (simp add: to_int32_def)
qed

lemma seen_prefix: "prefix (seen xs) xs"
  by (simp add: seen_def take_is_prefix)

lemma length_seen:
  assumes "0 \<le> to_int32 (length xs)"
  shows "to_int32 (length xs) = int (length (seen xs))"
proof -
  have "nat (to_int32 (length xs)) \<le> length xs" using to_int32_le[of "length xs"] by linarith
  then have "length (seen xs) = nat (to_int32 (length xs))" by (simp add: seen_def)
  with assms show ?thesis by simp
qed

lemma seen_small: "length xs < 2 ^ 31 \<Longrightarrow> seen xs = xs"
  by (simp add: seen_def to_int32_small)

lemma new_vector_int: "new_vector (int k) v = ret (replicate k v)"
  by (simp add: new_vector_def)

lemma new_vector_neg: "n < 0 \<Longrightarrow> new_vector n v = Some (Inl LengthError)"
  by (simp add: new_vector_def)

lemma bind_o_error: "bind_o (Some (Inl e)) f = Some (Inl e)"
  by (simp add: bind_o_def)

subsection \<open>Prefixes that are suffixes\<close>

lemma pre_suf_suffix: "pre_suf p w k \<longleftrightarrow> k \<le> length p \<and> suffix (take k p) w"
proof
  assume a: "pre_suf p w k"
  then have "take k p = drop (length w - k) w" by (simp add: pre_suf_def)
  then have "suffix (take k p) w" by (simp add: suffix_drop)
  with a show "k \<le> length p \<and> suffix (take k p) w" by (simp add: pre_suf_def)
next
  assume a: "k \<le> length p \<and> suffix (take k p) w"
  then obtain zs where w: "w = zs @ take k p" by (auto simp: suffix_def)
  with a show "pre_suf p w k" by (simp add: pre_suf_def)
qed

lemma pre_suf_0: "pre_suf p w 0"
  by (simp add: pre_suf_def)

lemma pre_suf_le: "pre_suf p w k \<Longrightarrow> k \<le> length w"
  by (simp add: pre_suf_def)

lemma pre_suf_snoc:
  "pre_suf p (w @ [c]) (Suc k) \<longleftrightarrow> k < length p \<and> p ! k = c \<and> pre_suf p w k"
proof (cases "k < length p")
  case True
  then show ?thesis
    by (simp add: pre_suf_suffix take_Suc_conv_app_nth)
next
  case False
  then show ?thesis by (simp add: pre_suf_def)
qed

lemma pre_suf_nest:
  assumes "pre_suf p w j" "pre_suf p w k" "k \<le> j"
  shows "pre_suf p (take j p) k"
proof -
  have j: "j \<le> length p" "suffix (take j p) w" using assms(1) by (simp_all add: pre_suf_suffix)
  have k: "k \<le> length p" "suffix (take k p) w" using assms(2) by (simp_all add: pre_suf_suffix)
  have "length (take k p) \<le> length (take j p)" using j k assms(3) by simp
  from suffix_length_suffix[OF k(2) j(2) this] k(1) show ?thesis
    by (simp add: pre_suf_suffix)
qed

lemma pre_suf_trans:
  assumes "pre_suf p w j" "pre_suf p (take j p) k"
  shows "pre_suf p w k"
proof -
  have "suffix (take k p) (take j p)" "k \<le> length p" using assms(2) by (simp_all add: pre_suf_suffix)
  moreover have "suffix (take j p) w" using assms(1) by (simp add: pre_suf_suffix)
  ultimately show ?thesis
    using suffix_order.trans by (auto simp add: pre_suf_suffix)
qed

lemma pre_suf_take_self: "j \<le> length p \<Longrightarrow> pre_suf p (take j p) j"
  by (simp add: pre_suf_def)

text \<open>Accesses at indices known to be in range.\<close>

lemma bind_o_ret: "bind_o (ret v) f = f v"
  by (simp add: bind_o_def ret_def)

lemma rd_int: "k < length xs \<Longrightarrow> rd xs (int k) = ret (xs ! k)"
  by (simp add: rd_def idx_def)

lemma wr_int: "k < length xs \<Longrightarrow> wr xs (int k) v = ret (xs[k := v])"
  by (simp add: wr_def idx_def)

text \<open>
  The loops run up to the narrowed length. Below, \<open>P\<close>, \<open>T\<close> and \<open>S\<close> are the strings the
  code holds, and \<open>p\<close>, \<open>t\<close> and \<open>s\<close> the prefixes it looks at.
\<close>

lemma rd_prefix:
  assumes "prefix p P" "k < length p"
  shows "rd P (int k) = ret (p ! k)"
proof -
  from assms(1) obtain zs where P: "P = p @ zs" by (auto simp: prefix_def)
  have "k < length P" using assms(2) P by simp
  from rd_int[OF this] show ?thesis using assms(2) P by (simp add: nth_append)
qed

text \<open>A candidate for position \<open>i + 1\<close> is one symbol longer than a candidate for \<open>i\<close>.\<close>

lemma pre_suf_step:
  assumes "i < length t" "pre_suf p (take (Suc i) t) (Suc k)"
  shows "k < length p \<and> p ! k = t ! i \<and> pre_suf p (take i t) k"
  using assms by (simp add: take_Suc_conv_app_nth pre_suf_snoc)

lemma pre_suf_grow:
  assumes "i < length t" "pre_suf p (take i t) k" "k < length p" "p ! k = t ! i"
  shows "pre_suf p (take (Suc i) t) (Suc k)"
  using assms by (simp add: take_Suc_conv_app_nth pre_suf_snoc)

lemma lps_body_match:
  assumes inv: "lps_inv p i j lps" and i: "i < length p" and eq: "p ! i = p ! j"
  shows "lps_inv p (Suc i) (Suc j) (lps[i := int (Suc j)])"
proof -
  from inv have len: "length lps = length p" and ji: "j < i"
    and bj: "pre_suf p (take i p) j"
    and mx: "\<forall>k. k \<le> i \<and> pre_suf p (take (Suc i) p) k \<longrightarrow> k \<le> Suc j"
    and tab: "\<forall>k<i. 0 \<le> lps ! k \<and> lps_at p k (nat (lps ! k))"
    using i by (simp_all add: lps_inv_def)
  have jp: "j < length p" using ji i by simp
  have b': "pre_suf p (take (Suc i) p) (Suc j)"
    using pre_suf_grow[OF i bj jp] eq by simp
  have at: "lps_at p i (Suc j)"
    using b' mx ji by (simp add: lps_at_def)
  have mx': "\<forall>k. k \<le> Suc i \<and> pre_suf p (take (Suc (Suc i)) p) k \<longrightarrow> k \<le> Suc (Suc j)"
    if "Suc i < length p"
  proof (intro allI impI)
    fix k assume k: "k \<le> Suc i \<and> pre_suf p (take (Suc (Suc i)) p) k"
    show "k \<le> Suc (Suc j)"
    proof (cases k)
      case 0 then show ?thesis by simp
    next
      case (Suc k')
      with k pre_suf_step[OF that, of p k'] have "pre_suf p (take (Suc i) p) k'" "k' \<le> i" by simp_all
      with mx have "k' \<le> Suc j" by blast
      with Suc show ?thesis by simp
    qed
  qed
  have tab': "\<forall>k<Suc i. 0 \<le> lps[i := int (Suc j)] ! k \<and> lps_at p k (nat (lps[i := int (Suc j)] ! k))"
  proof (intro allI impI)
    fix k assume "k < Suc i"
    then consider "k < i" | "k = i" by linarith
    then show "0 \<le> lps[i := int (Suc j)] ! k \<and> lps_at p k (nat (lps[i := int (Suc j)] ! k))"
    proof cases
      case 1 then show ?thesis using tab by simp
    next
      case 2 then show ?thesis using at len i by (simp del: of_nat_Suc)
    qed
  qed
  show ?thesis
    unfolding lps_inv_def using len i ji b' mx' tab' by simp
qed

lemma lps_body_zero:
  assumes inv: "lps_inv p i 0 lps" and i: "i < length p" and ne: "p ! i \<noteq> p ! 0"
  shows "lps_inv p (Suc i) 0 (lps[i := 0])"
proof -
  from inv have len: "length lps = length p"
    and mx: "\<forall>k. k \<le> i \<and> pre_suf p (take (Suc i) p) k \<longrightarrow> k \<le> Suc 0"
    and tab: "\<forall>k<i. 0 \<le> lps ! k \<and> lps_at p k (nat (lps ! k))"
    using i by (simp_all add: lps_inv_def)
  have mx0: "\<forall>k. k \<le> i \<and> pre_suf p (take (Suc i) p) k \<longrightarrow> k \<le> 0"
  proof (intro allI impI)
    fix k assume k: "k \<le> i \<and> pre_suf p (take (Suc i) p) k"
    then have "k \<le> Suc 0" using mx by blast
    moreover have "k \<noteq> Suc 0"
    proof
      assume "k = Suc 0"
      with k pre_suf_step[OF i, of p 0] have "p ! 0 = p ! i" by simp
      with ne show False by simp
    qed
    ultimately show "k \<le> 0" by simp
  qed
  have at: "lps_at p i 0"
    using mx0 by (simp add: lps_at_def pre_suf_0)
  have mx': "\<forall>k. k \<le> Suc i \<and> pre_suf p (take (Suc (Suc i)) p) k \<longrightarrow> k \<le> Suc 0"
    if "Suc i < length p"
  proof (intro allI impI)
    fix k assume k: "k \<le> Suc i \<and> pre_suf p (take (Suc (Suc i)) p) k"
    show "k \<le> Suc 0"
    proof (cases k)
      case 0 then show ?thesis by simp
    next
      case (Suc k')
      with k pre_suf_step[OF that, of p k'] have "pre_suf p (take (Suc i) p) k'" "k' \<le> i" by simp_all
      with mx0 have "k' \<le> 0" by blast
      with Suc show ?thesis by simp
    qed
  qed
  have tab': "\<forall>k<Suc i. 0 \<le> lps[i := 0] ! k \<and> lps_at p k (nat (lps[i := 0] ! k))"
  proof (intro allI impI)
    fix k assume "k < Suc i"
    then consider "k < i" | "k = i" by linarith
    then show "0 \<le> lps[i := 0] ! k \<and> lps_at p k (nat (lps[i := 0] ! k))"
    proof cases
      case 1 then show ?thesis using tab by simp
    next
      case 2 then show ?thesis using at len i by auto
    qed
  qed
  show ?thesis
    unfolding lps_inv_def using len i mx' tab' by (simp add: pre_suf_0)
qed

lemma lps_body_back:
  assumes inv: "lps_inv p i (Suc j0) lps" and i: "i < length p" and ne: "p ! i \<noteq> p ! Suc j0"
    and v: "lps_at p j0 v"
  shows "lps_inv p i v lps"
proof -
  from inv have len: "length lps = length p" and ji: "Suc j0 < i" and i1: "1 \<le> i"
    and bj: "pre_suf p (take i p) (Suc j0)"
    and mx: "\<forall>k. k \<le> i \<and> pre_suf p (take (Suc i) p) k \<longrightarrow> k \<le> Suc (Suc j0)"
    and tab: "\<forall>k<i. 0 \<le> lps ! k \<and> lps_at p k (nat (lps ! k))"
    using i by (simp_all add: lps_inv_def)
  from v have vj: "v \<le> j0" and bv: "pre_suf p (take (Suc j0) p) v"
    and vmx: "\<forall>k. k \<le> j0 \<and> pre_suf p (take (Suc j0) p) k \<longrightarrow> k \<le> v"
    by (simp_all add: lps_at_def)
  have b': "pre_suf p (take i p) v" using pre_suf_trans[OF bj bv] .
  have mx': "\<forall>k. k \<le> i \<and> pre_suf p (take (Suc i) p) k \<longrightarrow> k \<le> Suc v"
  proof (intro allI impI)
    fix k assume k: "k \<le> i \<and> pre_suf p (take (Suc i) p) k"
    show "k \<le> Suc v"
    proof (cases k)
      case 0 then show ?thesis by simp
    next
      case (Suc k')
      with k pre_suf_step[OF i, of p k'] have k': "p ! k' = p ! i" "pre_suf p (take i p) k'" by simp_all
      from k mx Suc have "k' \<le> Suc j0" by auto
      moreover have "k' \<noteq> Suc j0" using k'(1) ne by auto
      ultimately have lt: "k' \<le> j0" by simp
      then have "pre_suf p (take (Suc j0) p) k'"
        using pre_suf_nest[OF bj k'(2)] by simp
      with vmx lt have "k' \<le> v" by blast
      with Suc show ?thesis by simp
    qed
  qed
  show ?thesis
    unfolding lps_inv_def using len i i1 ji vj b' mx' tab by simp
qed

lemma computeLPS_body_step:
  assumes inv: "lps_inv p i j lps" and i: "i < length p" and pre: "prefix p P"
  shows "\<exists>i' j' lps'. computeLPS_body P (int i) (int j) lps = ret (int i', int j', lps') \<and>
            lps_inv p i' j' lps' \<and> 2 * (length p - i') + j' < 2 * (length p - i) + j"
proof -
  from inv have len: "length lps = length p" and ji: "j < i"
    and tab: "\<forall>k<i. 0 \<le> lps ! k \<and> lps_at p k (nat (lps ! k))"
    by (simp_all add: lps_inv_def)
  have jp: "j < length p" using ji i by simp
  have il: "i < length lps" using len i by simp
  show ?thesis
  proof (cases "p ! i = p ! j")
    case True
    have "computeLPS_body P (int i) (int j) lps = ret (int (Suc i), int (Suc j), lps[i := int (Suc j)])"
      using True by (simp add: computeLPS_body_def rd_prefix[OF pre i] rd_prefix[OF pre jp] wr_int[OF il] bind_o_ret add.commute)
    moreover have "2 * (length p - Suc i) + Suc j < 2 * (length p - i) + j" using i by simp
    ultimately show ?thesis using lps_body_match[OF inv i True] by blast
  next
    case False
    show ?thesis
    proof (cases j)
      case 0
      have "rd P 0 = ret (p ! 0)" using rd_prefix[OF pre jp] 0 by simp
      then have "computeLPS_body P (int i) (int j) lps = ret (int (Suc i), int 0, lps[i := 0])"
        using False 0 by (simp add: computeLPS_body_def rd_prefix[OF pre i] wr_int[OF il] bind_o_ret add.commute)
      moreover have "2 * (length p - Suc i) + 0 < 2 * (length p - i) + j" using i by simp
      ultimately show ?thesis using lps_body_zero[OF _ i] inv False 0 by blast
    next
      case (Suc j0)
      then have j0: "j0 < i" using ji by simp
      define v where "v = nat (lps ! j0)"
      with tab j0 have v: "lps ! j0 = int v" "lps_at p j0 v" by simp_all
      have j0l: "j0 < length lps" using j0 il by simp
      have "rd lps (int j - 1) = ret (int v)" using rd_int[OF j0l] v(1) Suc by simp
      moreover have "j \<noteq> 0" using Suc by simp
      ultimately have "computeLPS_body P (int i) (int j) lps = ret (int i, int v, lps)"
        using False by (simp add: computeLPS_body_def rd_prefix[OF pre i] rd_prefix[OF pre jp] bind_o_ret)
      moreover have "2 * (length p - i) + v < 2 * (length p - i) + j"
        using v(2) Suc by (simp add: lps_at_def)
      ultimately show ?thesis using lps_body_back[OF _ i _ v(2)] inv False Suc by blast
    qed
  qed
qed

lemma computeLPS_loop_correct:
  assumes inv: "lps_inv p i j lps" and pre: "prefix p P"
  shows "\<exists>r. computeLPS_loop P (int (length p)) (int i) (int j) lps = ret r \<and>
             length r = length p \<and> (\<forall>k<length p. 0 \<le> r ! k \<and> lps_at p k (nat (r ! k)))"
  using inv
proof (induction "2 * (length p - i) + j" arbitrary: i j lps rule: less_induct)
  case less
  show ?case
  proof (cases "i < length p")
    case True
    from computeLPS_body_step[OF less.prems True pre] obtain i' j' lps' where
      b: "computeLPS_body P (int i) (int j) lps = ret (int i', int j', lps')"
      and inv': "lps_inv p i' j' lps'"
      and dec: "2 * (length p - i') + j' < 2 * (length p - i) + j" by blast
    have "computeLPS_loop P (int (length p)) (int i) (int j) lps =
          computeLPS_loop P (int (length p)) (int i') (int j') lps'"
      using True b by (subst computeLPS_loop.simps) (simp add: ret_def)
    with less.hyps[OF dec inv'] show ?thesis by simp
  next
    case False
    with less.prems have eq: "i = length p" by (simp add: lps_inv_def)
    have "computeLPS_loop P (int (length p)) (int i) (int j) lps = ret lps"
      using eq by (subst computeLPS_loop.simps) simp
    with less.prems eq show ?thesis by (auto simp add: lps_inv_def)
  qed
qed

lemma lps_inv_init:
  assumes "p \<noteq> []"
  shows "lps_inv p 1 0 (replicate (length p) 0)"
proof -
  have len: "Suc 0 \<le> length p" "0 < length p" using assms by (cases p; simp)+
  have "\<forall>k. k \<le> 1 \<and> pre_suf p (take (Suc 1) p) k \<longrightarrow> k \<le> Suc 0" by simp
  moreover have "lps_at p 0 0" by (simp add: lps_at_def pre_suf_0)
  ultimately show ?thesis using len by (simp add: lps_inv_def pre_suf_0 Suc_le_eq)
qed

lemma computeLPS_seen:
  assumes "0 \<le> to_int32 (length P)"
  shows "\<exists>r. computeLPS P = ret r \<and> lps_table (seen P) r"
proof -
  have m: "to_int32 (length P) = int (length (seen P))" by (rule length_seen[OF assms])
  show ?thesis
  proof (cases "seen P = []")
    case True
    have "computeLPS_loop P 0 1 0 [] = ret []"
      by (subst computeLPS_loop.simps) simp
    then have "computeLPS P = ret []"
      using True by (simp add: computeLPS_def m new_vector_def bind_o_ret)
    then show ?thesis using True by (simp add: lps_table_def)
  next
    case False
    from computeLPS_loop_correct[OF lps_inv_init[OF False] seen_prefix[of P]]
    show ?thesis by (simp add: computeLPS_def m new_vector_int bind_o_ret lps_table_def)
  qed
qed

lemma computeLPS_throws:
  assumes "to_int32 (length P) < 0"
  shows "computeLPS P = Some (Inl LengthError)"
  using assms by (simp add: computeLPS_def new_vector_neg bind_o_error)

lemma computeLPS_correct:
  assumes "length p < 2 ^ 31"
  shows "\<exists>r. computeLPS p = ret r \<and> length r = length p \<and>
       (\<forall>k<length p. 0 \<le> r ! k \<and> lps_at p k (nat (r ! k)))"
proof -
  have "0 \<le> to_int32 (length p)" using assms by (simp add: to_int32_small)
  from computeLPS_seen[OF this] show ?thesis
    by (simp add: seen_small[OF assms] lps_table_def)
qed

subsection \<open>KMPSearch\<close>

lemma kmp_next_bound:
  assumes si: "Suc i < length t"
    and mx: "\<forall>k. pre_suf p (take (Suc i) t) k \<longrightarrow> k \<le> v"
  shows "\<forall>k. pre_suf p (take (Suc (Suc i)) t) k \<longrightarrow> k \<le> Suc v"
proof (intro allI impI)
  fix k assume k: "pre_suf p (take (Suc (Suc i)) t) k"
  show "k \<le> Suc v"
  proof (cases k)
    case 0 then show ?thesis by simp
  next
    case (Suc k')
    with k pre_suf_step[OF si, of p k'] have "pre_suf p (take (Suc i) t) k'" by simp
    with mx have "k' \<le> v" by blast
    with Suc show ?thesis by simp
  qed
qed

lemma kmp_table_update:
  assumes tab: "\<forall>k<i. 0 \<le> out ! k \<and> kmp_at p t k (nat (out ! k))"
    and at: "kmp_at p t i v" and il: "i < length out"
  shows "\<forall>k<Suc i. 0 \<le> out[i := int v] ! k \<and> kmp_at p t k (nat (out[i := int v] ! k))"
proof (intro allI impI)
  fix k assume "k < Suc i"
  then consider "k < i" | "k = i" by linarith
  then show "0 \<le> out[i := int v] ! k \<and> kmp_at p t k (nat (out[i := int v] ! k))"
  proof cases
    case 1 then show ?thesis using tab by simp
  next
    case 2 then show ?thesis using at il by simp
  qed
qed

lemma kmp_match:
  assumes inv: "kmp_inv p t i j out" and i: "i < length t" and j: "j < length p"
    and eq: "p ! j = t ! i"
  shows "kmp_inv p t (Suc i) (Suc j) (out[i := int (Suc j)])"
proof -
  from inv have len: "length out = length t"
    and bj: "pre_suf p (take i t) j"
    and mx: "\<forall>k. pre_suf p (take (Suc i) t) k \<longrightarrow> k \<le> Suc j"
    and tab: "\<forall>k<i. 0 \<le> out ! k \<and> kmp_at p t k (nat (out ! k))"
    using i by (simp_all add: kmp_inv_def)
  have b': "pre_suf p (take (Suc i) t) (Suc j)"
    using pre_suf_grow[OF i bj j eq] .
  have at: "kmp_at p t i (Suc j)"
    using b' mx by (simp add: kmp_at_def)
  have il: "i < length out" using len i by simp
  note tab' = kmp_table_update[OF tab at il]
  have mx': "\<forall>k. pre_suf p (take (Suc (Suc i)) t) k \<longrightarrow> k \<le> Suc (Suc j)"
    if "Suc i < length t"
    using kmp_next_bound[OF that mx] .
  show ?thesis
    unfolding kmp_inv_def using len i j b' mx' tab' by simp
qed

lemma kmp_zero:
  assumes inv: "kmp_inv p t i 0 out" and i: "i < length t" and ne: "p ! 0 \<noteq> t ! i"
  shows "kmp_inv p t (Suc i) 0 (out[i := 0])"
proof -
  from inv have len: "length out = length t"
    and mx: "\<forall>k. pre_suf p (take (Suc i) t) k \<longrightarrow> k \<le> Suc 0"
    and tab: "\<forall>k<i. 0 \<le> out ! k \<and> kmp_at p t k (nat (out ! k))"
    using i by (simp_all add: kmp_inv_def)
  have mx0: "\<forall>k. pre_suf p (take (Suc i) t) k \<longrightarrow> k \<le> 0"
  proof (intro allI impI)
    fix k assume k: "pre_suf p (take (Suc i) t) k"
    then have "k \<le> Suc 0" using mx by blast
    moreover have "k \<noteq> Suc 0"
    proof
      assume "k = Suc 0"
      with k pre_suf_step[OF i, of p 0] have "p ! 0 = t ! i" by simp
      with ne show False by simp
    qed
    ultimately show "k \<le> 0" by simp
  qed
  have at: "kmp_at p t i 0"
    using mx0 by (simp add: kmp_at_def pre_suf_0)
  have il: "i < length out" using len i by simp
  have tab': "\<forall>k<Suc i. 0 \<le> out[i := 0] ! k \<and> kmp_at p t k (nat (out[i := 0] ! k))"
    using kmp_table_update[OF tab at il] by simp
  have mx': "\<forall>k. pre_suf p (take (Suc (Suc i)) t) k \<longrightarrow> k \<le> Suc 0"
    if "Suc i < length t"
    using kmp_next_bound[OF that mx0] .
  show ?thesis
    unfolding kmp_inv_def using len i mx' tab' by (simp add: pre_suf_0)
qed

lemma kmp_back:
  assumes inv: "kmp_inv p t i (Suc j0) out"
    and ne: "i < length t \<Longrightarrow> Suc j0 < length p \<Longrightarrow> p ! Suc j0 \<noteq> t ! i"
    and v: "lps_at p j0 v"
  shows "kmp_inv p t i v out \<and> v < length p"
proof -
  from inv have len: "length out = length t" and il: "i \<le> length t" and jl: "Suc j0 \<le> length p"
    and bj: "pre_suf p (take i t) (Suc j0)"
    and mx: "i < length t \<longrightarrow> (\<forall>k. pre_suf p (take (Suc i) t) k \<longrightarrow> k \<le> Suc (Suc j0))"
    and tab: "\<forall>k<i. 0 \<le> out ! k \<and> kmp_at p t k (nat (out ! k))"
    by (simp_all add: kmp_inv_def)
  from v have vj: "v \<le> j0" and bv: "pre_suf p (take (Suc j0) p) v"
    and vmx: "\<forall>k. k \<le> j0 \<and> pre_suf p (take (Suc j0) p) k \<longrightarrow> k \<le> v"
    by (simp_all add: lps_at_def)
  have b': "pre_suf p (take i t) v" using pre_suf_trans[OF bj bv] .
  have mx': "\<forall>k. pre_suf p (take (Suc i) t) k \<longrightarrow> k \<le> Suc v" if i: "i < length t"
  proof (intro allI impI)
    fix k assume k: "pre_suf p (take (Suc i) t) k"
    show "k \<le> Suc v"
    proof (cases k)
      case 0 then show ?thesis by simp
    next
      case (Suc k')
      with k pre_suf_step[OF i, of p k']
      have k': "k' < length p" "p ! k' = t ! i" "pre_suf p (take i t) k'" by simp_all
      from k mx i Suc have "k' \<le> Suc j0" by auto
      moreover have "k' \<noteq> Suc j0" using k'(1,2) ne[OF i] by auto
      ultimately have lt: "k' \<le> j0" by simp
      then have "pre_suf p (take (Suc j0) p) k'"
        using pre_suf_nest[OF bj k'(3)] by simp
      with vmx lt have "k' \<le> v" by blast
      with Suc show ?thesis by simp
    qed
  qed
  have "v < length p" using vj jl by simp
  moreover have "kmp_inv p t i v out"
    unfolding kmp_inv_def using len il vj jl b' mx' tab by simp
  ultimately show ?thesis by simp
qed

lemma lps_table_rd:
  assumes "lps_table p tab" "j = Suc j0" "j \<le> length p"
  shows "\<exists>v. rd tab (int j - 1) = ret (int v) \<and> lps_at p j0 v"
proof -
  have j0: "j0 < length tab" "j0 < length p" using assms by (simp_all add: lps_table_def)
  have "0 \<le> tab ! j0" "lps_at p j0 (nat (tab ! j0))"
    using assms(1) j0(2) by (simp_all add: lps_table_def)
  moreover have "rd tab (int j - 1) = ret (tab ! j0)"
    using rd_int[OF j0(1)] assms(2) by simp
  ultimately show ?thesis by (intro exI[of _ "nat (tab ! j0)"]) simp
qed

lemma KMPSearch_fold_step:
  assumes inv: "kmp_inv p t i j out" and tab: "lps_table p tab" and j0: "0 < j"
    and preP: "prefix p P" and preT: "prefix t T"
  shows "\<exists>j'. KMPSearch_fold T P (int (length t)) (int (length p)) tab (int i) (int j) out =
               ret (int i, int j', out) \<and>
             kmp_inv p t i j' out \<and> j' < length p \<and> j' \<le> j"
proof -
  from j0 obtain j1 where j1: "j = Suc j1" by (cases j) simp_all
  from inv have jl: "j \<le> length p" and il: "i \<le> length t" by (simp_all add: kmp_inv_def)
  from lps_table_rd[OF tab j1 jl] obtain v where
    v: "rd tab (int j - 1) = ret (int v)" "lps_at p j1 v" by blast
  have vj: "v \<le> j" using v(2) j1 by (simp add: lps_at_def)
  show ?thesis
  proof (cases "j = length p")
    case True
    have "KMPSearch_fold T P (int (length t)) (int (length p)) tab (int i) (int j) out =
            ret (int i, int v, out)"
      using True v(1) by (simp add: KMPSearch_fold_def bind_o_ret)
    moreover have "kmp_inv p t i v out \<and> v < length p"
      using kmp_back[OF _ _ v(2)] inv j1 True by simp
    ultimately show ?thesis using vj by blast
  next
    case False
    then have jl': "j < length p" using jl by simp
    show ?thesis
    proof (cases "i < length t")
      case True
      show ?thesis
      proof (cases "p ! j = t ! i")
        case eq: True
        have "KMPSearch_fold T P (int (length t)) (int (length p)) tab (int i) (int j) out =
                ret (int i, int j, out)"
          using False True eq
          by (simp add: KMPSearch_fold_def rd_prefix[OF preP jl'] rd_prefix[OF preT True] bind_o_ret)
        then show ?thesis using inv jl' by blast
      next
        case ne: False
        have "j \<noteq> 0" using j0 by simp
        then have "KMPSearch_fold T P (int (length t)) (int (length p)) tab (int i) (int j) out =
                ret (int i, int v, out)"
          using False True ne v(1)
          by (simp add: KMPSearch_fold_def rd_prefix[OF preP jl'] rd_prefix[OF preT True] bind_o_ret)
        moreover have "kmp_inv p t i v out \<and> v < length p"
          using kmp_back[OF _ _ v(2)] inv j1 ne by simp
        ultimately show ?thesis using vj by blast
      qed
    next
      case nl: False
      have "KMPSearch_fold T P (int (length t)) (int (length p)) tab (int i) (int j) out =
                ret (int i, int j, out)"
        using False nl by (simp add: KMPSearch_fold_def)
      then show ?thesis using inv jl' by blast
    qed
  qed
qed

lemma KMPSearch_body_step:
  assumes inv: "kmp_inv p t i j out" and j: "j < length p" and tab: "lps_table p tab"
    and i: "i < length t" and preP: "prefix p P" and preT: "prefix t T"
  shows "\<exists>i' j' out'.
           KMPSearch_body T P (int (length t)) (int (length p)) tab (int i) (int j) out =
             ret (int i', int j', out') \<and>
           kmp_inv p t i' j' out' \<and> j' < length p \<and>
           2 * (length t - i') + j' < 2 * (length t - i) + j"
proof -
  from inv have len: "length out = length t" by (simp add: kmp_inv_def)
  have il: "i < length out" using len i by simp
  show ?thesis
  proof (cases "p ! j = t ! i")
    case True
    have adv: "KMPSearch_advance T P (int i) (int j) out =
                 ret (int (Suc i), int (Suc j), out[i := int (Suc j)])"
      using True by (simp add: KMPSearch_advance_def rd_prefix[OF preP j] rd_prefix[OF preT i] wr_int[OF il]
          bind_o_ret add.commute)
    note inv1 = kmp_match[OF inv i j True]
    from KMPSearch_fold_step[OF inv1 tab _ preP preT] obtain j' where
      f: "KMPSearch_fold T P (int (length t)) (int (length p)) tab (int (Suc i)) (int (Suc j))
            (out[i := int (Suc j)]) = ret (int (Suc i), int j', out[i := int (Suc j)])"
      and inv': "kmp_inv p t (Suc i) j' (out[i := int (Suc j)])"
      and j': "j' < length p" "j' \<le> Suc j" by auto
    have "KMPSearch_body T P (int (length t)) (int (length p)) tab (int i) (int j) out =
            ret (int (Suc i), int j', out[i := int (Suc j)])"
      unfolding KMPSearch_body_def adv bind_o_ret using f by simp
    moreover have "2 * (length t - Suc i) + j' < 2 * (length t - i) + j"
      using i j'(2) by simp
    ultimately show ?thesis using inv' j'(1) by blast
  next
    case False
    have adv: "KMPSearch_advance T P (int i) (int j) out = ret (int i, int j, out)"
      using False by (simp add: KMPSearch_advance_def rd_prefix[OF preP j] rd_prefix[OF preT i] bind_o_ret)
    show ?thesis
    proof (cases "j = 0")
      case True
      have r0: "rd P 0 = ret (p ! 0)" using rd_prefix[OF preP j] True by simp
      have f: "KMPSearch_fold T P (int (length t)) (int (length p)) tab (int i) (int j) out =
              ret (int (Suc i), int 0, out[i := 0])"
        using False True i j
        by (simp add: KMPSearch_fold_def r0 rd_prefix[OF preT i] wr_int[OF il] bind_o_ret add.commute)
      have "KMPSearch_body T P (int (length t)) (int (length p)) tab (int i) (int j) out =
              ret (int (Suc i), int 0, out[i := 0])"
        unfolding KMPSearch_body_def adv bind_o_ret using f by simp
      moreover have "kmp_inv p t (Suc i) 0 (out[i := 0])"
        using kmp_zero[OF _ i] inv False True by simp
      moreover have "2 * (length t - Suc i) + 0 < 2 * (length t - i) + j" using i by simp
      moreover have "0 < length p" by (rule le_less_trans[OF le0 j])
      ultimately show ?thesis by blast
    next
      case nz: False
      then obtain j1 where j1: "j = Suc j1" by (cases j) simp_all
      from lps_table_rd[OF tab j1] j obtain v where
        v: "rd tab (int j - 1) = ret (int v)" "lps_at p j1 v" by auto
      have f: "KMPSearch_fold T P (int (length t)) (int (length p)) tab (int i) (int j) out =
              ret (int i, int v, out)"
        using False nz i j v(1)
        by (simp add: KMPSearch_fold_def rd_prefix[OF preP j] rd_prefix[OF preT i] bind_o_ret)
      have "KMPSearch_body T P (int (length t)) (int (length p)) tab (int i) (int j) out =
              ret (int i, int v, out)"
        unfolding KMPSearch_body_def adv bind_o_ret using f by simp
      moreover have "kmp_inv p t i v out \<and> v < length p"
        using kmp_back[OF _ _ v(2)] inv j1 False by simp
      moreover have "2 * (length t - i) + v < 2 * (length t - i) + j"
        using v(2) j1 by (simp add: lps_at_def)
      ultimately show ?thesis by blast
    qed
  qed
qed

lemma KMPSearch_loop_correct:
  assumes "kmp_inv p t i j out" "j < length p" "lps_table p tab"
    and "prefix p P" "prefix t T"
  shows "\<exists>r. KMPSearch_loop T P (int (length t)) (int (length p)) tab (int i) (int j) out = ret r \<and>
             length r = length t \<and> (\<forall>k<length t. 0 \<le> r ! k \<and> kmp_at p t k (nat (r ! k)))"
  using assms(1,2)
proof (induction "2 * (length t - i) + j" arbitrary: i j out rule: less_induct)
  case less
  show ?case
  proof (cases "i < length t")
    case True
    from KMPSearch_body_step[OF less.prems assms(3) True assms(4,5)] obtain i' j' out' where
      b: "KMPSearch_body T P (int (length t)) (int (length p)) tab (int i) (int j) out =
            ret (int i', int j', out')"
      and inv': "kmp_inv p t i' j' out'" and j': "j' < length p"
      and dec: "2 * (length t - i') + j' < 2 * (length t - i) + j" by blast
    have "KMPSearch_loop T P (int (length t)) (int (length p)) tab (int i) (int j) out =
          KMPSearch_loop T P (int (length t)) (int (length p)) tab (int i') (int j') out'"
      using True b by (subst KMPSearch_loop.simps) (simp add: ret_def)
    with less.hyps[OF dec inv' j'] show ?thesis by simp
  next
    case False
    with less.prems have eq: "i = length t" by (simp add: kmp_inv_def)
    have "KMPSearch_loop T P (int (length t)) (int (length p)) tab (int i) (int j) out = ret out"
      using eq by (subst KMPSearch_loop.simps) simp
    with less.prems eq show ?thesis by (auto simp add: kmp_inv_def)
  qed
qed

lemma kmp_inv_init: "kmp_inv p t 0 0 (replicate (length t) 0)"
proof -
  have "\<forall>k. pre_suf p (take (Suc 0) t) k \<longrightarrow> k \<le> Suc 0"
  proof (intro allI impI)
    fix k assume "pre_suf p (take (Suc 0) t) k"
    from pre_suf_le[OF this] show "k \<le> Suc 0" by simp
  qed
  then show ?thesis by (simp add: kmp_inv_def pre_suf_0)
qed

lemma KMPSearch_seen:
  assumes n: "0 \<le> to_int32 (length T)" and m: "0 < to_int32 (length P)"
  shows "\<exists>r. KMPSearch T P = ret r \<and> length r = length (seen T) \<and>
             (\<forall>k<length (seen T). 0 \<le> r ! k \<and> kmp_at (seen P) (seen T) k (nat (r ! k)))"
proof -
  have m0: "0 \<le> to_int32 (length P)" using m by simp
  have mP: "to_int32 (length P) = int (length (seen P))" by (rule length_seen[OF m0])
  have nT: "to_int32 (length T) = int (length (seen T))" by (rule length_seen[OF n])
  from computeLPS_seen[OF m0] obtain tab where
    tab: "computeLPS P = ret tab" "lps_table (seen P) tab" by blast
  have lp: "0 < length (seen P)" using m mP by simp
  from KMPSearch_loop_correct[OF kmp_inv_init[of "seen P" "seen T"] lp tab(2)
      seen_prefix[of P] seen_prefix[of T]]
  show ?thesis using lp
    by (simp add: KMPSearch_def mP nT tab(1) new_vector_int bind_o_ret)
qed

lemma KMPSearch_throws:
  assumes "to_int32 (length P) < 0 \<or> (0 < to_int32 (length P) \<and> to_int32 (length T) < 0)"
  shows "KMPSearch T P = Some (Inl LengthError)"
proof (cases "to_int32 (length P) < 0")
  case True
  then show ?thesis
    by (simp add: KMPSearch_def computeLPS_throws[OF True] bind_o_error)
next
  case False
  with assms have m: "0 < to_int32 (length P)" and n: "to_int32 (length T) < 0" by simp_all
  have "0 \<le> to_int32 (length P)" using m by simp
  from computeLPS_seen[OF this] obtain tab where tab: "computeLPS P = ret tab" by blast
  show ?thesis using m
    by (simp add: KMPSearch_def tab bind_o_ret new_vector_neg[OF n] bind_o_error)
qed

lemma KMPSearch_correct:
  assumes "p \<noteq> []" and t: "length t < 2 ^ 31" and p: "length p < 2 ^ 31"
  shows "\<exists>r. KMPSearch t p = ret r \<and> length r = length t \<and>
             (\<forall>k<length t. 0 \<le> r ! k \<and> kmp_at p t k (nat (r ! k)))"
proof -
  have "0 \<le> to_int32 (length t)" using t by (simp add: to_int32_small)
  moreover have "0 < to_int32 (length p)" using p assms(1) by (simp add: to_int32_small)
  ultimately show ?thesis
    using KMPSearch_seen[of t p] by (simp add: seen_small[OF t] seen_small[OF p])
qed

subsection \<open>Common prefixes\<close>

lemma pre_pre_0: "pre_pre p w 0"
  by (simp add: pre_pre_def)

lemma pre_pre_drop_iff:
  assumes "L \<le> length t"
  shows "pre_pre p (drop L t) k \<longleftrightarrow>
           k \<le> length p \<and> L + k \<le> length t \<and> (\<forall>x<k. p ! x = t ! (L + x))"
proof (cases "k \<le> length p \<and> L + k \<le> length t")
  case True
  then have kt: "k \<le> length t - L" by linarith
  with True have kl: "min (length p) k = k" "min (length t - L) k = k"
    by (simp_all add: min_absorb2)
  have "take k p = take k (drop L t) \<longleftrightarrow> (\<forall>x<k. p ! x = t ! (L + x))"
    using assms by (simp add: list_eq_iff_nth_eq kl)
  with True kt assms show ?thesis by (simp add: pre_pre_def)
next
  case False
  with assms show ?thesis by (auto simp: pre_pre_def)
qed

lemma pre_pre_mono: "pre_pre p w k \<Longrightarrow> k' \<le> k \<Longrightarrow> pre_pre p w k'"
proof -
  assume a: "pre_pre p w k" "k' \<le> k"
  then have e: "take k p = take k w" by (simp add: pre_pre_def)
  have "take k' p = take k' (take k p)" using a(2) by (simp add: min_absorb1)
  also have "\<dots> = take k' (take k w)" by (simp only: e)
  also have "\<dots> = take k' w" using a(2) by (simp add: min_absorb1)
  finally have "take k' p = take k' w" .
  moreover have "k' \<le> length p" "k' \<le> length w" using a by (simp_all add: pre_pre_def)
  ultimately show ?thesis by (simp add: pre_pre_def)
qed

lemma z_at_stop:
  assumes pp: "pre_pre p (drop L t) v" and L: "L \<le> length t"
    and stop: "v = length p \<or> L + v = length t \<or> p ! v \<noteq> t ! (L + v)"
  shows "z_at p (drop L t) v"
proof -
  have "k \<le> v" if k: "pre_pre p (drop L t) k" for k
  proof (rule ccontr)
    assume "\<not> k \<le> v"
    then have vk: "v < k" by simp
    from k have "k \<le> length p" "L + k \<le> length t" "\<forall>x<k. p ! x = t ! (L + x)"
      by (simp_all add: pre_pre_drop_iff[OF L])
    with vk stop show False by auto
  qed
  with pp show ?thesis by (simp add: z_at_def)
qed

lemma z_at_mismatch:
  assumes z: "z_at p (drop L t) v" and L: "L \<le> length t"
    and v: "v < length p" "L + v < length t"
  shows "p ! v \<noteq> t ! (L + v)"
proof
  assume eq: "p ! v = t ! (L + v)"
  from z have "\<forall>x<v. p ! x = t ! (L + x)"
    by (simp add: z_at_def pre_pre_drop_iff[OF L])
  with eq have "\<forall>x<Suc v. p ! x = t ! (L + x)" by (simp add: less_Suc_eq)
  with v have "pre_pre p (drop L t) (Suc v)"
    by (simp add: pre_pre_drop_iff[OF L])
  with z have "Suc v \<le> v" by (simp add: z_at_def)
  then show False by simp
qed

text \<open>Inside the window, a common prefix with \<open>p\<close> at \<open>i - L\<close> is one with \<open>t\<close> at \<open>i\<close>.\<close>

lemma window_transfer:
  assumes w: "z_window p t L Re" and Li: "L \<le> i"
    and pp: "pre_pre p (drop (i - L) p) x" and ix: "i + x \<le> Re"
  shows "pre_pre p (drop i t) x"
proof -
  from w have LR: "L \<le> Re" and Rt: "Re \<le> length t"
    and wp: "pre_pre p (drop L t) (Re - L)"
    by (simp_all add: z_window_def)
  have Lt: "L \<le> length t" using LR Rt by simp
  from wp have win: "\<forall>y<Re - L. p ! y = t ! (L + y)" and wl: "Re - L \<le> length p"
    by (simp_all add: pre_pre_drop_iff[OF Lt])
  have kp: "i - L \<le> length p" using ix LR wl by simp
  from pp have xp: "x \<le> length p" and px: "\<forall>y<x. p ! y = p ! (i - L + y)"
    by (simp_all add: pre_pre_drop_iff[OF kp])
  have it: "i \<le> length t" using ix Rt by simp
  have "p ! y = t ! (i + y)" if "y < x" for y
  proof -
    have "i - L + y < Re - L" using that ix Li by simp
    with win have "p ! (i - L + y) = t ! (L + (i - L + y))" by blast
    moreover have "L + (i - L + y) = i + y" using Li by simp
    ultimately show ?thesis using px that by simp
  qed
  then show ?thesis using xp ix Rt by (simp add: pre_pre_drop_iff[OF it])
qed

lemma window_copy:
  assumes w: "z_window p t L Re" and Li: "L \<le> i"
    and z: "z_at p (drop (i - L) p) v" and iv: "i + v < Re"
  shows "z_at p (drop i t) v"
proof -
  from w have LR: "L \<le> Re" and Rt: "Re \<le> length t"
    and wp: "pre_pre p (drop L t) (Re - L)"
    by (simp_all add: z_window_def)
  have Lt: "L \<le> length t" using LR Rt by simp
  from wp have win: "\<forall>y<Re - L. p ! y = t ! (L + y)" and wl: "Re - L \<le> length p"
    by (simp_all add: pre_pre_drop_iff[OF Lt])
  have kp: "i - L \<le> length p" using iv LR wl by simp
  have it: "i \<le> length t" using iv Rt by simp
  from z have pp: "pre_pre p (drop (i - L) p) v" by (simp add: z_at_def)
  have pp': "pre_pre p (drop i t) v"
    using window_transfer[OF w Li pp] iv by simp
  have lt: "i - L + v < Re - L" using iv Li by simp
  then have v: "v < length p" "i - L + v < length p" using wl by simp_all
  from z_at_mismatch[OF z kp v] have "p ! v \<noteq> p ! (i - L + v)" .
  moreover from win lt have "p ! (i - L + v) = t ! (L + (i - L + v))" by blast
  moreover have "L + (i - L + v) = i + v" using Li by simp
  ultimately have "p ! v \<noteq> t ! (i + v)" by simp
  then show ?thesis using z_at_stop[OF pp' it] by simp
qed

lemma z_table_update:
  assumes tab: "\<forall>k<i. 0 \<le> Z ! k \<and> z_at p (drop k t) (nat (Z ! k))"
    and at: "z_at p (drop i t) v" and il: "i < length Z"
  shows "\<forall>k<Suc i. 0 \<le> Z[i := int v] ! k \<and> z_at p (drop k t) (nat (Z[i := int v] ! k))"
proof (intro allI impI)
  fix k assume "k < Suc i"
  then consider "k < i" | "k = i" by linarith
  then show "0 \<le> Z[i := int v] ! k \<and> z_at p (drop k t) (nat (Z[i := int v] ! k))"
  proof cases
    case 1 then show ?thesis using tab by simp
  next
    case 2 then show ?thesis using at il by simp
  qed
qed

subsection \<open>computeZArray\<close>

lemma computeZArray_while_correct:
  assumes "L \<le> R" "R \<le> length s" "pre_pre s (drop L s) (R - L)"
    and pre: "prefix s S"
  shows "\<exists>R'. computeZArray_while S (int (length s)) (int L) (int R) = ret (int R') \<and>
              R \<le> R' \<and> R' \<le> length s \<and> z_at s (drop L s) (R' - L)"
  using assms(1-3)
proof (induction "length s - R" arbitrary: R rule: less_induct)
  case less
  have Ls: "L \<le> length s" using less.prems by simp
  show ?case
  proof (cases "R < length s")
    case True
    have RL: "R - L < length s" using True by simp
    have d: "int R - int L = int (R - L)" using less.prems(1) by simp
    have g: "computeZArray_guard S (int (length s)) (int L) (int R) = ret (s ! (R - L) = s ! R)"
      using True by (simp add: computeZArray_guard_def d rd_prefix[OF pre RL] rd_prefix[OF pre True] bind_o_ret)
    show ?thesis
    proof (cases "s ! (R - L) = s ! R")
      case eq: True
      have "\<forall>x<R - L. s ! x = s ! (L + x)"
        using less.prems(3) by (simp add: pre_pre_drop_iff[OF Ls])
      with eq less.prems(1) have "\<forall>x<Suc (R - L). s ! x = s ! (L + x)"
        by (simp add: less_Suc_eq)
      moreover have "Suc (R - L) = Suc R - L" using less.prems(1) by simp
      ultimately have pp: "pre_pre s (drop L s) (Suc R - L)"
        using True less.prems(1) by (simp add: pre_pre_drop_iff[OF Ls])
      have "length s - Suc R < length s - R" using True by simp
      from less.hyps[OF this _ _ pp] True less.prems(1) obtain R' where
        R': "computeZArray_while S (int (length s)) (int L) (int (Suc R)) = ret (int R')"
          "Suc R \<le> R'" "R' \<le> length s" "z_at s (drop L s) (R' - L)" by auto
      have "computeZArray_while S (int (length s)) (int L) (int R) =
            computeZArray_while S (int (length s)) (int L) (int (Suc R))"
        using g eq by (subst computeZArray_while.simps) (simp add: ret_def add.commute)
      with R' show ?thesis by (intro exI[of _ R']) simp
    next
      case ne: False
      have "computeZArray_while S (int (length s)) (int L) (int R) = ret (int R)"
        using g ne by (subst computeZArray_while.simps) (simp add: ret_def)
      moreover have "z_at s (drop L s) (R - L)"
        using z_at_stop[OF less.prems(3) Ls] ne less.prems(1) by simp
      ultimately show ?thesis using less.prems(2) by (intro exI[of _ R]) simp
    qed
  next
    case False
    then have eq: "R = length s" using less.prems(2) by simp
    have g: "computeZArray_guard S (int (length s)) (int L) (int R) = ret False"
      using False by (simp add: computeZArray_guard_def)
    have "computeZArray_while S (int (length s)) (int L) (int R) = ret (int R)"
      using g by (subst computeZArray_while.simps) (simp add: ret_def)
    moreover have "z_at s (drop L s) (R - L)"
      using z_at_stop[OF less.prems(3) Ls] eq less.prems(1) by simp
    ultimately show ?thesis using less.prems(2) by (intro exI[of _ R]) simp
  qed
qed

lemma z_inv_extend:
  assumes inv: "z_inv s i L Re Z" and i: "i < length s"
    and z: "z_at s (drop i s) (R' - i)" and R': "i \<le> R'" "R' \<le> length s"
  shows "z_inv s (Suc i) i R' (Z[i := int R' - int i])"
proof -
  from inv have len: "length Z = length s"
    and tab: "\<forall>k<i. 0 \<le> Z ! k \<and> z_at s (drop k s) (nat (Z ! k))" and i1: "1 \<le> i"
    by (simp_all add: z_inv_def)
  have il: "i < length Z" using len i by simp
  have d: "int R' - int i = int (R' - i)" using R'(1) by simp
  have w: "z_window s s i R'" using z R' by (simp add: z_window_def z_at_def)
  show ?thesis
    unfolding z_inv_def d using len i i1 w z_table_update[OF tab z il] by simp
qed

lemma computeZArray_body_step:
  assumes inv: "z_inv s i L Re Z" and i: "i < length s" and pre: "prefix s S"
  shows "\<exists>L' Re' Z'.
           computeZArray_body S (int (length s)) (int i) (int L) (int Re - 1) Z =
             ret (int L', int Re' - 1, Z') \<and>
           z_inv s (Suc i) L' Re' Z'"
proof -
  from inv have len: "length Z = length s" and Li: "L < i"
    and w: "z_window s s L Re" and L1: "i < Re \<longrightarrow> 1 \<le> L"
    and tab: "\<forall>k<i. 0 \<le> Z ! k \<and> z_at s (drop k s) (nat (Z ! k))"
    by (simp_all add: z_inv_def)
  have il: "i < length Z" using len i by simp
  have ile: "i \<le> length s" using i by simp
  show ?thesis
  proof (cases "i < Re")
    case False
    then have c: "int i > int Re - 1" by simp
    have pp0: "pre_pre s (drop i s) (i - i)" by (simp add: pre_pre_0)
    from computeZArray_while_correct[OF le_refl ile pp0 pre] obtain R' where
      R': "computeZArray_while S (int (length s)) (int i) (int i) = ret (int R')"
        "i \<le> R'" "R' \<le> length s" "z_at s (drop i s) (R' - i)"
      by blast
    have "computeZArray_body S (int (length s)) (int i) (int L) (int Re - 1) Z =
            ret (int i, int R' - 1, Z[i := int R' - int i])"
      using c by (simp add: computeZArray_body_def R'(1) bind_o_ret wr_int[OF il])
    with z_inv_extend[OF inv i R'(4,2,3)] show ?thesis by blast
  next
    case True
    then have c: "\<not> int i > int Re - 1" by simp
    from True L1 have L1': "1 \<le> L" by simp
    have k: "i - L < i" "i - L < length Z" using Li L1' il by simp_all
    have dk: "int i - int L = int (i - L)" using Li by simp
    define v where "v = nat (Z ! (i - L))"
    from tab k(1) have v: "Z ! (i - L) = int v" "z_at s (drop (i - L) s) v"
      by (simp_all add: v_def)
    have rk: "rd Z (int i - int L) = ret (int v)"
      by (simp only: dk rd_int[OF k(2)] v(1))
    show ?thesis
    proof (cases "i + v < Re")
      case copy: True
      then have c2: "int v < int Re - 1 - int i + 1" by simp
      have "computeZArray_body S (int (length s)) (int i) (int L) (int Re - 1) Z =
              ret (int L, int Re - 1, Z[i := int v])"
        using c c2 by (simp add: computeZArray_body_def rk bind_o_ret wr_int[OF il])
      moreover have "z_at s (drop i s) v"
        using window_copy[OF w _ v(2) copy] Li by simp
      then have "z_inv s (Suc i) L Re (Z[i := int v])"
        unfolding z_inv_def using len i Li w L1' z_table_update[OF tab _ il] by simp
      ultimately show ?thesis by blast
    next
      case ext: False
      then have c2: "\<not> int v < int Re - 1 - int i + 1" by simp
      have dR: "int Re - 1 = int (Re - 1)" using True by simp
      have ppv: "pre_pre s (drop (i - L) s) v" using v(2) by (simp add: z_at_def)
      have "Re - 1 - i \<le> v" using ext by simp
      from pre_pre_mono[OF ppv this] have "pre_pre s (drop (i - L) s) (Re - 1 - i)" .
      from window_transfer[OF w _ this] Li True
      have pp: "pre_pre s (drop i s) (Re - 1 - i)" by simp
      have "Re \<le> length s" using w by (simp add: z_window_def)
      then have Rs: "Re - 1 \<le> length s" by linarith
      have iRe: "i \<le> Re - 1" using True by simp
      from computeZArray_while_correct[OF iRe Rs pp pre] obtain R' where
        R': "computeZArray_while S (int (length s)) (int i) (int (Re - 1)) = ret (int R')"
          "Re - 1 \<le> R'" "R' \<le> length s" "z_at s (drop i s) (R' - i)"
        by blast
      have iR: "i \<le> R'" using R'(2) iRe by simp
      have wh: "computeZArray_while S (int (length s)) (int i) (int Re - 1) = ret (int R')"
        using R'(1) by (simp only: dR)
      have "computeZArray_body S (int (length s)) (int i) (int L) (int Re - 1) Z =
              ret (int i, int R' - 1, Z[i := int R' - int i])"
        using c c2
        by (simp add: computeZArray_body_def rk wh bind_o_ret wr_int[OF il])
      with z_inv_extend[OF inv i R'(4) iR R'(3)] show ?thesis by blast
    qed
  qed
qed

lemma computeZArray_for_correct:
  assumes inv: "z_inv s i L Re Z" and pre: "prefix s S"
  shows "\<exists>r. computeZArray_for S (int (length s)) (int i) (int L) (int Re - 1) Z = ret r \<and>
             length r = length s \<and>
             (\<forall>k<length s. 0 \<le> r ! k \<and> z_at s (drop k s) (nat (r ! k)))"
  using inv
proof (induction "length s - i" arbitrary: i L Re Z rule: less_induct)
  case less
  show ?case
  proof (cases "i < length s")
    case True
    from computeZArray_body_step[OF less.prems True pre] obtain L' Re' Z' where
      b: "computeZArray_body S (int (length s)) (int i) (int L) (int Re - 1) Z =
            ret (int L', int Re' - 1, Z')"
      and inv': "z_inv s (Suc i) L' Re' Z'" by blast
    have "computeZArray_for S (int (length s)) (int i) (int L) (int Re - 1) Z =
          computeZArray_for S (int (length s)) (int (Suc i)) (int L') (int Re' - 1) Z'"
      using True b by (subst computeZArray_for.simps) (simp add: ret_def add.commute)
    moreover have "length s - Suc i < length s - i" using True by simp
    ultimately show ?thesis using less.hyps[OF _ inv'] by simp
  next
    case False
    with less.prems have eq: "i = length s" by (simp add: z_inv_def)
    have "computeZArray_for S (int (length s)) (int i) (int L) (int Re - 1) Z = ret Z"
      using eq by (subst computeZArray_for.simps) simp
    with less.prems eq show ?thesis by (auto simp add: z_inv_def)
  qed
qed

lemma z_at_self: "z_at s (drop 0 s) (length s)"
  by (simp add: z_at_def pre_pre_def)

lemma z_inv_init:
  assumes "s \<noteq> []"
  shows "z_inv s 1 0 1 ((replicate (length s) 0)[0 := int (length s)])"
proof -
  have len: "Suc 0 \<le> length s" "0 < length s" using assms by (cases s; simp)+
  have "pre_pre s (drop 0 s) (Suc 0)" using len by (simp add: pre_pre_def Suc_le_eq)
  then have w: "z_window s s 0 1" using len(1) by (simp add: z_window_def)
  show ?thesis
    unfolding z_inv_def using len w z_at_self[of s] by (simp add: Suc_le_eq)
qed

lemma computeZArray_seen:
  assumes "0 \<le> to_int32 (length S)"
  shows "\<exists>r. computeZArray S = ret r \<and> z_table (seen S) r"
proof -
  have n: "to_int32 (length S) = int (length (seen S))" by (rule length_seen[OF assms])
  show ?thesis
  proof (cases "seen S = []")
    case True
    then show ?thesis by (simp add: computeZArray_def n z_table_def)
  next
    case False
    then have l: "0 < length (replicate (length (seen S)) (0::int))" by simp
    from computeZArray_for_correct[OF z_inv_init[OF False] seen_prefix[of S]] l False
    show ?thesis
      by (simp add: computeZArray_def Let_def n new_vector_int z_table_def
          wr_int[OF l, simplified] bind_o_ret)
  qed
qed

lemma computeZArray_throws:
  assumes "to_int32 (length S) < 0"
  shows "computeZArray S = Some (Inl LengthError)"
  using assms by (simp add: computeZArray_def new_vector_neg bind_o_error)

lemma computeZArray_correct:
  assumes "length s < 2 ^ 31"
  shows "\<exists>r. computeZArray s = ret r \<and> z_table s r"
proof -
  have "0 \<le> to_int32 (length s)" using assms by (simp add: to_int32_small)
  from computeZArray_seen[OF this] show ?thesis by (simp add: seen_small[OF assms])
qed

subsection \<open>zAlgorithmSearch\<close>

lemma zAlgorithmSearch_while_correct:
  assumes "L \<le> R" "R \<le> length t" "pre_pre p (drop L t) (R - L)"
    and preP: "prefix p P" and preT: "prefix t T"
  shows "\<exists>R'. zAlgorithmSearch_while T P (int (length p)) (int (length t)) (int L) (int R) =
                ret (int R') \<and>
              R \<le> R' \<and> R' \<le> length t \<and> z_at p (drop L t) (R' - L)"
  using assms(1-3)
proof (induction "length t - R" arbitrary: R rule: less_induct)
  case less
  have Lt: "L \<le> length t" using less.prems by simp
  have d: "int R - int L = int (R - L)" using less.prems(1) by simp
  have LR: "L + (R - L) = R" using less.prems(1) by simp
  from less.prems(3) have RLp: "R - L \<le> length p"
    and win: "\<forall>x<R - L. p ! x = t ! (L + x)"
    by (simp_all add: pre_pre_drop_iff[OF Lt])
  show ?case
  proof (cases "R < length t \<and> R - L < length p")
    case True
    then have Rt: "R < length t" and RL: "R - L < length p" by simp_all
    have c: "int R < int (length t) \<and> int (R - L) < int (length p)" using True by simp
    have g: "zAlgorithmSearch_guard T P (int (length p)) (int (length t)) (int L) (int R) =
               ret (t ! R = p ! (R - L))"
      unfolding zAlgorithmSearch_guard_def d using c
      by (simp add: rd_prefix[OF preT Rt] rd_prefix[OF preP RL] bind_o_ret)
    show ?thesis
    proof (cases "t ! R = p ! (R - L)")
      case eq: True
      then have "p ! (R - L) = t ! (L + (R - L))" using LR by simp
      with win have "\<forall>x<Suc (R - L). p ! x = t ! (L + x)"
        by (simp add: less_Suc_eq)
      moreover have "Suc (R - L) = Suc R - L" using less.prems(1) by simp
      ultimately have pp: "pre_pre p (drop L t) (Suc R - L)"
        using Rt RL less.prems(1) by (simp add: pre_pre_drop_iff[OF Lt])
      have dec: "length t - Suc R < length t - R" using Rt by simp
      have LS: "L \<le> Suc R" using less.prems(1) by simp
      have St: "Suc R \<le> length t" using Rt by simp
      from less.hyps[OF dec LS St pp] obtain R' where
        R': "zAlgorithmSearch_while T P (int (length p)) (int (length t)) (int L) (int (Suc R)) =
               ret (int R')"
          "Suc R \<le> R'" "R' \<le> length t" "z_at p (drop L t) (R' - L)" by blast
      have "zAlgorithmSearch_while T P (int (length p)) (int (length t)) (int L) (int R) =
            zAlgorithmSearch_while T P (int (length p)) (int (length t)) (int L) (int (Suc R))"
        using g eq by (subst zAlgorithmSearch_while.simps) (simp add: ret_def add.commute)
      with R' show ?thesis by (intro exI[of _ R']) simp
    next
      case ne: False
      have "zAlgorithmSearch_while T P (int (length p)) (int (length t)) (int L) (int R) =
              ret (int R)"
        using g ne by (subst zAlgorithmSearch_while.simps) (simp add: ret_def)
      moreover have "p ! (R - L) \<noteq> t ! (L + (R - L))" using ne LR by simp
      then have "z_at p (drop L t) (R - L)"
        using z_at_stop[OF less.prems(3) Lt] by simp
      ultimately show ?thesis using less.prems(2) by (intro exI[of _ R]) simp
    qed
  next
    case False
    have g: "zAlgorithmSearch_guard T P (int (length p)) (int (length t)) (int L) (int R) =
               ret False"
      unfolding zAlgorithmSearch_guard_def d
      by (simp only: of_nat_less_iff False if_False)
    have "zAlgorithmSearch_while T P (int (length p)) (int (length t)) (int L) (int R) =
            ret (int R)"
      using g by (subst zAlgorithmSearch_while.simps) (simp add: ret_def)
    moreover have "R - L = length p \<or> L + (R - L) = length t"
      using False RLp less.prems(2) LR by linarith
    then have "z_at p (drop L t) (R - L)"
      using z_at_stop[OF less.prems(3) Lt] by blast
    ultimately show ?thesis using less.prems(2) by (intro exI[of _ R]) simp
  qed
qed

lemma zs_inv_extend:
  assumes inv: "zs_inv p t i L Re Z" and i: "i < length t"
    and z: "z_at p (drop i t) (R' - i)" and R': "i \<le> R'" "R' \<le> length t"
  shows "zs_inv p t (Suc i) i R' (Z[i := int R' - int i])"
proof -
  from inv have len: "length Z = length t"
    and tab: "\<forall>k<i. 0 \<le> Z ! k \<and> z_at p (drop k t) (nat (Z ! k))"
    by (simp_all add: zs_inv_def)
  have il: "i < length Z" using len i by simp
  have d: "int R' - int i = int (R' - i)" using R'(1) by simp
  have w: "z_window p t i R'" using z R' by (simp add: z_window_def z_at_def)
  show ?thesis
    unfolding zs_inv_def d using len i w z_table_update[OF tab z il] by simp
qed

lemma zAlgorithmSearch_body_step:
  assumes inv: "zs_inv p t i L Re Z" and i: "i < length t" and zt: "z_table p Zp"
    and preP: "prefix p P" and preT: "prefix t T"
  shows "\<exists>L' Re' Z'.
           zAlgorithmSearch_body T P (int (length p)) (int (length t)) Zp
               (int i) (int L) (int Re - 1) Z =
             ret (int L', int Re' - 1, Z') \<and>
           zs_inv p t (Suc i) L' Re' Z'"
proof -
  from inv have len: "length Z = length t" and Li: "L \<le> i"
    and w: "z_window p t L Re" and L1: "i < Re \<longrightarrow> L < i"
    and tab: "\<forall>k<i. 0 \<le> Z ! k \<and> z_at p (drop k t) (nat (Z ! k))"
    by (simp_all add: zs_inv_def)
  have il: "i < length Z" using len i by simp
  have il0: "i < length (Z[i := 0])" using il by simp
  have ile: "i \<le> length t" using i by simp
  have w0: "wr Z (int i) 0 = ret (Z[i := 0])" by (rule wr_int[OF il])
  have ow: "(Z[i := 0])[i := x] = Z[i := x]" for x by simp
  show ?thesis
  proof (cases "i < Re")
    case False
    then have c: "int i > int Re - 1" by simp
    have pp0: "pre_pre p (drop i t) (i - i)" by (simp add: pre_pre_0)
    from zAlgorithmSearch_while_correct[OF le_refl ile pp0 preP preT] obtain R' where
      R': "zAlgorithmSearch_while T P (int (length p)) (int (length t)) (int i) (int i) =
             ret (int R')"
        "i \<le> R'" "R' \<le> length t" "z_at p (drop i t) (R' - i)"
      by blast
    have "zAlgorithmSearch_body T P (int (length p)) (int (length t)) Zp
               (int i) (int L) (int Re - 1) Z =
            ret (int i, int R' - 1, Z[i := int R' - int i])"
      using c by (simp add: zAlgorithmSearch_body_def w0 R'(1) bind_o_ret wr_int[OF il0] ow)
    with zs_inv_extend[OF inv i R'(4,2,3)] show ?thesis by blast
  next
    case True
    then have c: "\<not> int i > int Re - 1" by simp
    from True L1 have L1': "L < i" by simp
    from w have LR: "L \<le> Re" and Rt: "Re \<le> length t"
      and wp: "pre_pre p (drop L t) (Re - L)" by (simp_all add: z_window_def)
    have "Re - L \<le> length p" using wp by (simp add: pre_pre_def)
    then have kp: "i - L < length p" using True L1' by linarith
    from zt have zl: "length Zp = length p"
      and ztab: "\<forall>k<length p. 0 \<le> Zp ! k \<and> z_at p (drop k p) (nat (Zp ! k))"
      by (simp_all add: z_table_def)
    have kz: "i - L < length Zp" using kp zl by simp
    have dk: "int i - int L = int (i - L)" using Li by simp
    define v where "v = nat (Zp ! (i - L))"
    from ztab kp have v: "Zp ! (i - L) = int v" "z_at p (drop (i - L) p) v"
      by (simp_all add: v_def)
    have rk: "rd Zp (int i - int L) = ret (int v)"
      by (simp only: dk rd_int[OF kz] v(1))
    show ?thesis
    proof (cases "i + v < Re")
      case copy: True
      then have c2: "int v < int Re - 1 - int i + 1" by simp
      have "zAlgorithmSearch_body T P (int (length p)) (int (length t)) Zp
               (int i) (int L) (int Re - 1) Z =
              ret (int L, int Re - 1, Z[i := int v])"
        using c c2 by (simp add: zAlgorithmSearch_body_def w0 rk bind_o_ret wr_int[OF il0] ow)
      moreover have "z_at p (drop i t) v"
        using window_copy[OF w Li v(2) copy] .
      then have "zs_inv p t (Suc i) L Re (Z[i := int v])"
        unfolding zs_inv_def using len i Li w L1' z_table_update[OF tab _ il] by simp
      ultimately show ?thesis by blast
    next
      case ext: False
      then have c2: "\<not> int v < int Re - 1 - int i + 1" by simp
      have dR: "int Re - 1 = int (Re - 1)" using True by simp
      have ppv: "pre_pre p (drop (i - L) p) v" using v(2) by (simp add: z_at_def)
      have "Re - 1 - i \<le> v" using ext by simp
      from pre_pre_mono[OF ppv this] have ppk: "pre_pre p (drop (i - L) p) (Re - 1 - i)" .
      have "i + (Re - 1 - i) \<le> Re" using True by simp
      from window_transfer[OF w Li ppk this]
      have pp: "pre_pre p (drop i t) (Re - 1 - i)" .
      have Rs: "Re - 1 \<le> length t" using Rt by linarith
      have iRe: "i \<le> Re - 1" using True by simp
      from zAlgorithmSearch_while_correct[OF iRe Rs pp preP preT] obtain R' where
        R': "zAlgorithmSearch_while T P (int (length p)) (int (length t)) (int i)
               (int (Re - 1)) = ret (int R')"
          "Re - 1 \<le> R'" "R' \<le> length t" "z_at p (drop i t) (R' - i)"
        by blast
      have iR: "i \<le> R'" using R'(2) iRe by simp
      have wh: "zAlgorithmSearch_while T P (int (length p)) (int (length t)) (int i)
               (int Re - 1) = ret (int R')"
        using R'(1) by (simp only: dR)
      have "zAlgorithmSearch_body T P (int (length p)) (int (length t)) Zp
               (int i) (int L) (int Re - 1) Z =
              ret (int i, int R' - 1, Z[i := int R' - int i])"
        using c c2
        by (simp add: zAlgorithmSearch_body_def w0 rk wh bind_o_ret wr_int[OF il0] ow)
      with zs_inv_extend[OF inv i R'(4) iR R'(3)] show ?thesis by blast
    qed
  qed
qed

lemma zAlgorithmSearch_for_correct:
  assumes "zs_inv p t i L Re Z" "z_table p Zp"
    and "prefix p P" "prefix t T"
  shows "\<exists>r. zAlgorithmSearch_for T P (int (length p)) (int (length t)) Zp
                (int i) (int L) (int Re - 1) Z = ret r \<and>
             length r = length t \<and>
             (\<forall>k<length t. 0 \<le> r ! k \<and> z_at p (drop k t) (nat (r ! k)))"
  using assms(1)
proof (induction "length t - i" arbitrary: i L Re Z rule: less_induct)
  case less
  show ?case
  proof (cases "i < length t")
    case True
    from zAlgorithmSearch_body_step[OF less.prems True assms(2,3,4)] obtain L' Re' Z' where
      b: "zAlgorithmSearch_body T P (int (length p)) (int (length t)) Zp
            (int i) (int L) (int Re - 1) Z = ret (int L', int Re' - 1, Z')"
      and inv': "zs_inv p t (Suc i) L' Re' Z'" by blast
    have "zAlgorithmSearch_for T P (int (length p)) (int (length t)) Zp
            (int i) (int L) (int Re - 1) Z =
          zAlgorithmSearch_for T P (int (length p)) (int (length t)) Zp
            (int (Suc i)) (int L') (int Re' - 1) Z'"
      using True b by (subst zAlgorithmSearch_for.simps) (simp add: ret_def add.commute)
    moreover have "length t - Suc i < length t - i" using True by simp
    ultimately show ?thesis using less.hyps[OF _ inv'] by simp
  next
    case False
    with less.prems have eq: "i = length t" by (simp add: zs_inv_def)
    have "zAlgorithmSearch_for T P (int (length p)) (int (length t)) Zp
            (int i) (int L) (int Re - 1) Z = ret Z"
      using eq by (subst zAlgorithmSearch_for.simps) simp
    with less.prems eq show ?thesis by (auto simp add: zs_inv_def)
  qed
qed

lemma zs_inv_init: "zs_inv p t 0 0 0 (replicate (length t) 0)"
  by (simp add: zs_inv_def z_window_def pre_pre_0)

lemma zAlgorithmSearch_seen:
  assumes m: "0 \<le> to_int32 (length T)" and n: "0 < to_int32 (length P)"
  shows "\<exists>r. zAlgorithmSearch T P = ret r \<and> length r = length (seen T) \<and>
             (\<forall>k<length (seen T).
                 0 \<le> r ! k \<and> z_at (seen P) (drop k (seen T)) (nat (r ! k)))"
proof -
  have n0: "0 \<le> to_int32 (length P)" using n by simp
  have nP: "to_int32 (length P) = int (length (seen P))" by (rule length_seen[OF n0])
  have mT: "to_int32 (length T) = int (length (seen T))" by (rule length_seen[OF m])
  from computeZArray_seen[OF n0] obtain Zp where
    Zp: "computeZArray P = ret Zp" "z_table (seen P) Zp" by blast
  have lp: "0 < length (seen P)" using n nP by simp
  from zAlgorithmSearch_for_correct[OF zs_inv_init[of "seen P" "seen T"] Zp(2)
      seen_prefix[of P] seen_prefix[of T]]
  show ?thesis using lp
    by (simp add: zAlgorithmSearch_def nP mT Zp(1) new_vector_int bind_o_ret)
qed

lemma zAlgorithmSearch_empty:
  assumes m: "0 \<le> to_int32 (length T)" and n: "to_int32 (length P) = 0"
  shows "zAlgorithmSearch T P = ret (replicate (length (seen T)) 0)"
proof -
  have mT: "to_int32 (length T) = int (length (seen T))" by (rule length_seen[OF m])
  show ?thesis by (simp add: zAlgorithmSearch_def n mT new_vector_int bind_o_ret)
qed

lemma zAlgorithmSearch_throws:
  assumes "to_int32 (length T) < 0 \<or> to_int32 (length P) < 0"
  shows "zAlgorithmSearch T P = Some (Inl LengthError)"
proof (cases "to_int32 (length T) < 0")
  case True
  then show ?thesis
    by (simp add: zAlgorithmSearch_def new_vector_neg[OF True] bind_o_error)
next
  case False
  with assms have n: "to_int32 (length P) < 0" by simp
  from False have m: "0 \<le> to_int32 (length T)" by simp
  have mT: "to_int32 (length T) = int (length (seen T))" by (rule length_seen[OF m])
  show ?thesis using n
    by (simp add: zAlgorithmSearch_def mT new_vector_int bind_o_ret
        computeZArray_throws[OF n] bind_o_error)
qed

lemma zAlgorithmSearch_correct:
  assumes "p \<noteq> []" and t: "length t < 2 ^ 31" and p: "length p < 2 ^ 31"
  shows "\<exists>r. zAlgorithmSearch t p = ret r \<and> length r = length t \<and>
             (\<forall>k<length t. 0 \<le> r ! k \<and> z_at p (drop k t) (nat (r ! k)))"
proof -
  have "0 \<le> to_int32 (length t)" using t by (simp add: to_int32_small)
  moreover have "0 < to_int32 (length p)" using p assms(1) by (simp add: to_int32_small)
  ultimately show ?thesis
    using zAlgorithmSearch_seen[of t p] by (simp add: seen_small[OF t] seen_small[OF p])
qed

subsection \<open>Results in terms of borders and occurrences\<close>

lemma proper_border_pre_suf:
  assumes "i < length p"
  shows "proper_border (take (Suc i) p) k \<longleftrightarrow> k \<le> i \<and> pre_suf p (take (Suc i) p) k"
proof (cases "k \<le> i")
  case True
  have l: "length (take (Suc i) p) = Suc i" using assms by simp
  have m: "min k (Suc i) = k" using True by simp
  have kp: "k \<le> length p" using True assms by simp
  show ?thesis
    unfolding proper_border_def pre_suf_def l using True kp by (simp add: m)
next
  case False
  then show ?thesis using assms by (simp add: proper_border_def)
qed

lemma lps_at_border:
  assumes "i < length p" "lps_at p i v"
  shows "v \<le> i \<and> proper_border (take (Suc i) p) v \<and>
         (\<forall>k. proper_border (take (Suc i) p) k \<longrightarrow> k \<le> v)"
  using assms(2) unfolding lps_at_def proper_border_pre_suf[OF assms(1)] by blast

lemma pre_pre_full:
  assumes "j \<le> length t"
  shows "pre_pre p (drop j t) (length p) \<longleftrightarrow> occurs_at p t j"
proof (cases "j + length p \<le> length t")
  case True
  then show ?thesis by (auto simp: pre_pre_def occurs_at_def)
next
  case False
  then have "\<not> length p \<le> length t - j" using assms by linarith
  with False show ?thesis by (simp add: pre_pre_def occurs_at_def)
qed

lemma z_at_full:
  assumes "z_at p (drop j t) v" and j: "j \<le> length t"
  shows "v = length p \<longleftrightarrow> occurs_at p t j"
proof
  assume "v = length p"
  with assms(1) show "occurs_at p t j" by (simp add: z_at_def pre_pre_full[OF j])
next
  assume "occurs_at p t j"
  then have "pre_pre p (drop j t) (length p)" by (simp add: pre_pre_full[OF j])
  with assms(1) have "length p \<le> v" by (simp add: z_at_def)
  moreover from assms(1) have "v \<le> length p" by (simp add: z_at_def pre_pre_def)
  ultimately show "v = length p" by simp
qed

lemma pre_suf_full_occurs:
  assumes "i < length t"
  shows "pre_suf p (take (Suc i) t) (length p) \<longleftrightarrow>
           length p \<le> Suc i \<and> occurs_at p t (Suc i - length p)"
proof (cases "length p \<le> Suc i")
  case True
  have l: "length (take (Suc i) t) = Suc i" using assms by simp
  have "drop (Suc i - length p) (take (Suc i) t) =
          take (Suc i - (Suc i - length p)) (drop (Suc i - length p) t)"
    by (rule drop_take)
  moreover have "Suc i - (Suc i - length p) = length p" using True by simp
  ultimately have d: "drop (Suc i - length p) (take (Suc i) t) =
          take (length p) (drop (Suc i - length p) t)" by simp
  have b: "Suc i - length p + length p \<le> length t" using True assms by simp
  have "pre_suf p (take (Suc i) t) (length p) \<longleftrightarrow>
          p = take (length p) (drop (Suc i - length p) t)"
    unfolding pre_suf_def l d using True by simp
  also have "\<dots> \<longleftrightarrow> occurs_at p t (Suc i - length p)"
    unfolding occurs_at_def using b by auto
  finally show ?thesis using True by simp
next
  case False
  then show ?thesis using assms by (simp add: pre_suf_def)
qed

lemma kmp_at_full:
  assumes "kmp_at p t i v" "i < length t"
  shows "v = length p \<longleftrightarrow> length p \<le> Suc i \<and> occurs_at p t (Suc i - length p)"
proof -
  have "v = length p \<longleftrightarrow> pre_suf p (take (Suc i) t) (length p)"
  proof
    assume "v = length p"
    with assms(1) show "pre_suf p (take (Suc i) t) (length p)" by (simp add: kmp_at_def)
  next
    assume a: "pre_suf p (take (Suc i) t) (length p)"
    with assms(1) have "length p \<le> v" by (simp add: kmp_at_def)
    moreover from assms(1) have "v \<le> length p" by (simp add: kmp_at_def pre_suf_def)
    ultimately show "v = length p" by simp
  qed
  then show ?thesis by (simp add: pre_suf_full_occurs[OF assms(2)])
qed

lemma kmp_at_bounds:
  assumes "kmp_at p t i v" "i < length t"
  shows "v \<le> length p \<and> v \<le> Suc i"
  using assms by (simp add: kmp_at_def pre_suf_def)


subsection \<open>Every call ends, without a failed access\<close>

text \<open>
  On every input a call either returns a vector or throws at the construction of a vector
  (a narrowed length below 0); it never fails an access and never runs forever.
\<close>

lemma computeLPS_outcome:
  "(\<exists>r. computeLPS P = Some (Inr r)) \<or> computeLPS P = Some (Inl LengthError)"
proof (cases "0 \<le> to_int32 (length P)")
  case True
  from computeLPS_seen[OF True] show ?thesis by (auto simp: ret_def)
next
  case False
  then have "to_int32 (length P) < 0" by simp
  from computeLPS_throws[OF this] show ?thesis by simp
qed

lemma computeZArray_outcome:
  "(\<exists>r. computeZArray S = Some (Inr r)) \<or> computeZArray S = Some (Inl LengthError)"
proof (cases "0 \<le> to_int32 (length S)")
  case True
  from computeZArray_seen[OF True] show ?thesis by (auto simp: ret_def)
next
  case False
  then have "to_int32 (length S) < 0" by simp
  from computeZArray_throws[OF this] show ?thesis by simp
qed

lemma KMPSearch_outcome:
  "(\<exists>r. KMPSearch T P = Some (Inr r)) \<or> KMPSearch T P = Some (Inl LengthError)"
proof -
  consider "to_int32 (length P) = 0"
    | "to_int32 (length P) < 0 \<or> (0 < to_int32 (length P) \<and> to_int32 (length T) < 0)"
    | "0 \<le> to_int32 (length T)" "0 < to_int32 (length P)" by linarith
  then show ?thesis
  proof cases
    case 1
    then show ?thesis by (simp add: KMPSearch_def ret_def)
  next
    case 2
    from KMPSearch_throws[OF this] show ?thesis by simp
  next
    case 3
    from KMPSearch_seen[OF this] show ?thesis by (auto simp: ret_def)
  qed
qed

lemma zAlgorithmSearch_outcome:
  "(\<exists>r. zAlgorithmSearch T P = Some (Inr r)) \<or>
   zAlgorithmSearch T P = Some (Inl LengthError)"
proof -
  consider "to_int32 (length T) < 0 \<or> to_int32 (length P) < 0"
    | "0 \<le> to_int32 (length T)" "to_int32 (length P) = 0"
    | "0 \<le> to_int32 (length T)" "0 < to_int32 (length P)" by linarith
  then show ?thesis
  proof cases
    case 1
    from zAlgorithmSearch_throws[OF this] show ?thesis by simp
  next
    case 2
    from zAlgorithmSearch_empty[OF this] show ?thesis by (simp add: ret_def)
  next
    case 3
    from zAlgorithmSearch_seen[OF this] show ?thesis by (auto simp: ret_def)
  qed
qed

section \<open>The claims\<close>

text \<open>
  C1, as stated for every text and every non-empty pattern, fails where a length does not
  fit the 32-bit \<^verbatim>\<open>int\<close> of the source: a pattern of \<open>2^32\<close> symbols has the narrowed
  length 0, so \<open>KMPSearch\<close> takes it for empty and returns the empty array for the text
  \<open>aaa\<close>.
\<close>

theorem KMPSearch_entries_counterexample:
  "KMPSearch ''aaa'' (replicate (2 ^ 32) (CHR ''a'')) = ret [] \<and>
   replicate (2 ^ 32) (CHR ''a'') \<noteq> [] \<and>
   length ([] :: int list) \<noteq> length ''aaa''"
proof -
  have w: "to_int32 (length (replicate (2 ^ 32) (CHR ''a''))) = 0"
    by (simp add: to_int32_def)
  have "KMPSearch ''aaa'' (replicate (2 ^ 32) (CHR ''a'')) = ret []"
    unfolding KMPSearch_def Let_def w by simp
  moreover have "replicate (2 ^ 32) (CHR ''a'') \<noteq> []" by simp
  ultimately show ?thesis by simp
qed

text \<open>
  C1. For every text and every non-empty pattern, both shorter than \<open>2^31\<close> symbols,
  \<open>KMPSearch\<close> returns an array as long as the text; its entry at \<open>i\<close> is the length of
  the longest prefix of the pattern that is a suffix of \<open>text[0..i]\<close>. Where a full match
  completes at \<open>i\<close>, the entry is the pattern length itself, not another marker.
\<close>

theorem KMPSearch_entries:
  assumes "pattern \<noteq> []" and "length text < 2 ^ 31" and "length pattern < 2 ^ 31"
  shows "\<exists>lps. KMPSearch text pattern = ret lps \<and> length lps = length text \<and>
           (\<forall>i<length text. \<exists>v. lps ! i = int v \<and>
               pre_suf pattern (take (Suc i) text) v \<and>
               (\<forall>k. pre_suf pattern (take (Suc i) text) k \<longrightarrow> k \<le> v)) \<and>
           (\<forall>i<length text. pre_suf pattern (take (Suc i) text) (length pattern) \<longrightarrow>
               lps ! i = int (length pattern))"
proof -
  from KMPSearch_correct[OF assms] obtain r where
    r: "KMPSearch text pattern = ret r" "length r = length text"
    and e: "\<forall>k<length text. 0 \<le> r ! k \<and> kmp_at pattern text k (nat (r ! k))" by blast
  have a: "\<exists>v. r ! i = int v \<and> pre_suf pattern (take (Suc i) text) v \<and>
               (\<forall>k. pre_suf pattern (take (Suc i) text) k \<longrightarrow> k \<le> v)"
    if "i < length text" for i
  proof -
    from e that have "0 \<le> r ! i" "kmp_at pattern text i (nat (r ! i))" by simp_all
    then show ?thesis by (intro exI[of _ "nat (r ! i)"]) (simp add: kmp_at_def)
  qed
  have b: "r ! i = int (length pattern)"
    if "i < length text" "pre_suf pattern (take (Suc i) text) (length pattern)" for i
  proof -
    from e that(1) have p: "0 \<le> r ! i" and k: "kmp_at pattern text i (nat (r ! i))" by simp_all
    from k that(2) have "length pattern \<le> nat (r ! i)" by (simp add: kmp_at_def)
    moreover from kmp_at_bounds[OF k that(1)] have "nat (r ! i) \<le> length pattern" by simp
    ultimately have "nat (r ! i) = length pattern" by simp
    with p show ?thesis by linarith
  qed
  from r a b show ?thesis by blast
qed

theorem KMPSearch_entries_witness:
  "''abab'' \<noteq> [] \<and> length ''ababab'' < 2 ^ 31 \<and> length ''abab'' < 2 ^ 31 \<and>
   (3::nat) < length ''ababab'' \<and>
   KMPSearch ''ababab'' ''abab'' = ret [1, 2, 3, 4, 3, 4] \<and>
   pre_suf ''abab'' (take (Suc 3) ''ababab'') (length ''abab'') \<and>
   (\<exists>lps. KMPSearch ''ababab'' ''abab'' = ret lps \<and> lps ! 3 = int (length ''abab''))"
proof -
  have ne: "''abab'' \<noteq> []" by simp
  have i: "(3::nat) < length ''ababab''" by simp
  have ev: "KMPSearch ''ababab'' ''abab'' = ret [1, 2, 3, 4, 3, 4]" by code_simp
  have ps: "pre_suf ''abab'' (take (Suc 3) ''ababab'') (length ''abab'')" by code_simp
  have lt: "length ''ababab'' < 2 ^ 31" by simp
  have lp: "length ''abab'' < 2 ^ 31" by simp
  from KMPSearch_entries[OF ne lt lp] obtain lps where
    l: "KMPSearch ''ababab'' ''abab'' = ret lps" and
    f: "\<forall>i<length ''ababab''.
          pre_suf ''abab'' (take (Suc i) ''ababab'') (length ''abab'') \<longrightarrow>
          lps ! i = int (length ''abab'')" by blast
  from f i ps have "lps ! 3 = int (length ''abab'')" by blast
  with l ne lt lp i ev ps show ?thesis by blast
qed

text \<open>
  C2, as stated for every text and every non-empty pattern, fails where a length does not
  fit the 32-bit \<^verbatim>\<open>int\<close> of the source: for the text \<open>aaa\<close> and a pattern of \<open>2^32\<close>
  symbols \<open>a\<close> the narrowed pattern length is 0 and every entry is 0, although the first
  three symbols of the pattern match the text from position 0 on.
\<close>

theorem zAlgorithmSearch_entries_counterexample:
  "zAlgorithmSearch ''aaa'' (replicate (2 ^ 32) (CHR ''a'')) = ret [0, 0, 0] \<and>
   replicate (2 ^ 32) (CHR ''a'') \<noteq> [] \<and>
   pre_pre (replicate (2 ^ 32) (CHR ''a'')) (drop 0 ''aaa'') 3 \<and>
   \<not> (3::nat) \<le> nat ([0, 0, 0] ! 0)"
proof -
  have w: "to_int32 (length (replicate (2 ^ 32) (CHR ''a''))) = 0"
    by (simp add: to_int32_def)
  have t: "0 \<le> to_int32 (length ''aaa'')" by (simp add: to_int32_def)
  have s: "seen ''aaa'' = ''aaa''" by (rule seen_small) simp
  have "zAlgorithmSearch ''aaa'' (replicate (2 ^ 32) (CHR ''a'')) = ret [0, 0, 0]"
    using zAlgorithmSearch_empty[OF t w] by (simp add: s)
  moreover have "replicate (2 ^ 32) (CHR ''a'') \<noteq> []" by simp
  moreover have "pre_pre (replicate (2 ^ 32) (CHR ''a'')) (drop 0 ''aaa'') 3"
    by (simp add: pre_pre_def numeral_3_eq_3)
  ultimately show ?thesis by simp
qed

text \<open>
  C2. For every text and every non-empty pattern, both shorter than \<open>2^31\<close> symbols,
  \<open>zAlgorithmSearch\<close> returns an array as long as the text; its entry at \<open>i\<close> is the
  length of the longest prefix of the pattern that matches the text from position \<open>i\<close> on,
  and the entry is the pattern length exactly when a full copy of the pattern starts at
  \<open>i\<close>.
\<close>

theorem zAlgorithmSearch_entries:
  assumes "pattern \<noteq> []" and "length text < 2 ^ 31" and "length pattern < 2 ^ 31"
  shows "\<exists>Z. zAlgorithmSearch text pattern = ret Z \<and> length Z = length text \<and>
           (\<forall>i<length text. \<exists>v. Z ! i = int v \<and>
               pre_pre pattern (drop i text) v \<and>
               (\<forall>k. pre_pre pattern (drop i text) k \<longrightarrow> k \<le> v)) \<and>
           (\<forall>i<length text. Z ! i = int (length pattern) \<longleftrightarrow> occurs_at pattern text i)"
proof -
  from zAlgorithmSearch_correct[OF assms] obtain r where
    r: "zAlgorithmSearch text pattern = ret r" "length r = length text"
    and e: "\<forall>k<length text. 0 \<le> r ! k \<and> z_at pattern (drop k text) (nat (r ! k))" by blast
  have a: "\<exists>v. r ! i = int v \<and> pre_pre pattern (drop i text) v \<and>
               (\<forall>k. pre_pre pattern (drop i text) k \<longrightarrow> k \<le> v)"
    if "i < length text" for i
  proof -
    from e that have "0 \<le> r ! i" "z_at pattern (drop i text) (nat (r ! i))" by simp_all
    then show ?thesis by (intro exI[of _ "nat (r ! i)"]) (simp add: z_at_def)
  qed
  have b: "r ! i = int (length pattern) \<longleftrightarrow> occurs_at pattern text i"
    if "i < length text" for i
  proof -
    from e that have p: "0 \<le> r ! i" and z: "z_at pattern (drop i text) (nat (r ! i))"
      by simp_all
    have "i \<le> length text" using that by simp
    from z_at_full[OF z this] have "nat (r ! i) = length pattern \<longleftrightarrow> occurs_at pattern text i" .
    moreover have "r ! i = int (length pattern) \<longleftrightarrow> nat (r ! i) = length pattern"
      using p by linarith
    ultimately show ?thesis by simp
  qed
  from r a b show ?thesis by blast
qed

theorem zAlgorithmSearch_entries_witness:
  "''aa'' \<noteq> [] \<and> length ''aaaaa'' < 2 ^ 31 \<and> length ''aa'' < 2 ^ 31 \<and>
   (3::nat) < length ''aaaaa'' \<and>
   zAlgorithmSearch ''aaaaa'' ''aa'' = ret [2, 2, 2, 2, 1] \<and>
   occurs_at ''aa'' ''aaaaa'' 3 \<and>
   (\<exists>Z. zAlgorithmSearch ''aaaaa'' ''aa'' = ret Z \<and> Z ! 3 = int (length ''aa''))"
proof -
  have ne: "''aa'' \<noteq> []" by simp
  have i: "(3::nat) < length ''aaaaa''" by simp
  have ev: "zAlgorithmSearch ''aaaaa'' ''aa'' = ret [2, 2, 2, 2, 1]" by code_simp
  have oc: "occurs_at ''aa'' ''aaaaa'' 3" by code_simp
  have lt: "length ''aaaaa'' < 2 ^ 31" by simp
  have lp: "length ''aa'' < 2 ^ 31" by simp
  from zAlgorithmSearch_entries[OF ne lt lp] obtain Z where
    l: "zAlgorithmSearch ''aaaaa'' ''aa'' = ret Z" and
    f: "\<forall>i<length ''aaaaa''. Z ! i = int (length ''aa'') \<longleftrightarrow> occurs_at ''aa'' ''aaaaa'' i"
    by blast
  from f i oc have "Z ! 3 = int (length ''aa'')" by blast
  with l ne lt lp i ev oc show ?thesis by blast
qed

text \<open>
  C3, as stated for every pattern, fails where the length does not fit the 32-bit
  \<^verbatim>\<open>int\<close> of the source: for a pattern of \<open>2^32\<close> symbols the narrowed length is 0 and
  \<open>computeLPS\<close> returns the empty array, not one as long as the pattern.
\<close>

theorem computeLPS_entries_counterexample:
  "computeLPS (replicate (2 ^ 32) (CHR ''a'')) = ret [] \<and>
   length ([] :: int list) \<noteq> length (replicate (2 ^ 32) (CHR ''a''))"
proof -
  have w: "to_int32 (length (replicate (2 ^ 32) (CHR ''a''))) = 0"
    by (simp add: to_int32_def)
  then have w0: "0 \<le> to_int32 (length (replicate (2 ^ 32) (CHR ''a'')))" by simp
  from length_seen[OF w0] w have e: "length (seen (replicate (2 ^ 32) (CHR ''a''))) = 0"
    by simp
  from computeLPS_seen[OF w0] obtain r where
    r: "computeLPS (replicate (2 ^ 32) (CHR ''a'')) = ret r"
      "length r = length (seen (replicate (2 ^ 32) (CHR ''a'')))"
    unfolding lps_table_def by blast
  from r(2) e have "r = []" by simp
  with r(1) show ?thesis by simp
qed

text \<open>
  C3. For every pattern shorter than \<open>2^31\<close> symbols, \<open>computeLPS\<close> returns an array as
  long as the pattern; its entry at \<open>i\<close> is the length of the longest proper prefix of
  \<open>pattern[0..i]\<close> that is also a suffix of \<open>pattern[0..i]\<close>. The entry at \<open>i\<close> is at most
  \<open>i\<close>, and the entry at 0 is 0.
\<close>

theorem computeLPS_entries:
  assumes "length pattern < 2 ^ 31"
  shows "\<exists>lps. computeLPS pattern = ret lps \<and> length lps = length pattern \<and>
     (\<forall>i<length pattern. \<exists>v. lps ! i = int v \<and> v \<le> i \<and>
         proper_border (take (Suc i) pattern) v \<and>
         (\<forall>k. proper_border (take (Suc i) pattern) k \<longrightarrow> k \<le> v)) \<and>
     (pattern \<noteq> [] \<longrightarrow> lps ! 0 = 0)"
proof -
  from computeLPS_correct[OF assms] obtain r where
    r: "computeLPS pattern = ret r" "length r = length pattern"
    and e: "\<forall>k<length pattern. 0 \<le> r ! k \<and> lps_at pattern k (nat (r ! k))" by blast
  have a: "\<exists>v. r ! i = int v \<and> v \<le> i \<and> proper_border (take (Suc i) pattern) v \<and>
               (\<forall>k. proper_border (take (Suc i) pattern) k \<longrightarrow> k \<le> v)"
    if "i < length pattern" for i
  proof -
    from e that have p: "0 \<le> r ! i" and l: "lps_at pattern i (nat (r ! i))" by simp_all
    from lps_at_border[OF that l] p show ?thesis
      by (intro exI[of _ "nat (r ! i)"]) simp
  qed
  have b: "r ! 0 = 0" if "pattern \<noteq> []"
  proof -
    from that have "0 < length pattern" by simp
    from a[OF this] show ?thesis by auto
  qed
  from r a b show ?thesis by blast
qed

theorem computeLPS_entries_witness:
  "length ''AABAACAABAA'' < 2 ^ 31 \<and>
   (4::nat) < length ''AABAACAABAA'' \<and> ''AABAACAABAA'' \<noteq> [] \<and>
   computeLPS ''AABAACAABAA'' = ret [0, 1, 0, 1, 2, 0, 1, 2, 3, 4, 5] \<and>
   (\<exists>lps v. computeLPS ''AABAACAABAA'' = ret lps \<and> lps ! 0 = 0 \<and> lps ! 4 = int v \<and> v \<le> 4 \<and>
      proper_border (take (Suc 4) ''AABAACAABAA'') v)"
proof -
  have ne: "''AABAACAABAA'' \<noteq> []" by simp
  have i: "(4::nat) < length ''AABAACAABAA''" by simp
  have ev: "computeLPS ''AABAACAABAA'' = ret [0, 1, 0, 1, 2, 0, 1, 2, 3, 4, 5]" by code_simp
  have lp: "length ''AABAACAABAA'' < 2 ^ 31" by simp
  from computeLPS_entries[OF lp] obtain lps where
    l: "computeLPS ''AABAACAABAA'' = ret lps" and
    f: "\<forall>i<length ''AABAACAABAA''. \<exists>v. lps ! i = int v \<and> v \<le> i \<and>
         proper_border (take (Suc i) ''AABAACAABAA'') v \<and>
         (\<forall>k. proper_border (take (Suc i) ''AABAACAABAA'') k \<longrightarrow> k \<le> v)" and
    z: "''AABAACAABAA'' \<noteq> [] \<longrightarrow> lps ! 0 = 0" by blast
  from f i obtain v where "lps ! 4 = int v" "v \<le> 4"
    "proper_border (take (Suc 4) ''AABAACAABAA'') v" by blast
  moreover from z ne have "lps ! 0 = 0" by blast
  ultimately show ?thesis using l ne lp i ev by blast
qed

text \<open>
  C4, as stated for every string, fails where the length does not fit the 32-bit
  \<^verbatim>\<open>int\<close> of the source: for a string of \<open>2^32\<close> symbols the narrowed length is 0 and
  \<open>computeZArray\<close> returns the empty array, not one as long as the string.
\<close>

theorem computeZArray_entries_counterexample:
  "computeZArray (replicate (2 ^ 32) (CHR ''a'')) = ret [] \<and>
   length ([] :: int list) \<noteq> length (replicate (2 ^ 32) (CHR ''a''))"
proof -
  have w: "to_int32 (length (replicate (2 ^ 32) (CHR ''a''))) = 0"
    by (simp add: to_int32_def)
  have "computeZArray (replicate (2 ^ 32) (CHR ''a'')) = ret []"
    unfolding computeZArray_def Let_def w by simp
  then show ?thesis by simp
qed

text \<open>
  C4. For every string \<open>s\<close> shorter than \<open>2^31\<close> symbols, \<open>computeZArray\<close> returns an array
  as long as \<open>s\<close>; for a non-empty \<open>s\<close> the entry at 0 is the length of \<open>s\<close>; for \<open>i > 0\<close>
  the entry at \<open>i\<close> is at most \<open>length s - i\<close> and is the longest \<open>k\<close> with
  \<open>s[0..k) = s[i..i+k)\<close>.
\<close>

theorem computeZArray_entries:
  assumes "length s < 2 ^ 31"
  shows "\<exists>Z. computeZArray s = ret Z \<and> length Z = length s \<and>
     (s \<noteq> [] \<longrightarrow> Z ! 0 = int (length s)) \<and>
     (\<forall>i. 0 < i \<and> i < length s \<longrightarrow>
        (\<exists>v. Z ! i = int v \<and> v \<le> length s - i \<and> take v s = take v (drop i s) \<and>
           (\<forall>k. k \<le> length s - i \<and> take k s = take k (drop i s) \<longrightarrow> k \<le> v)))"
proof -
  from computeZArray_correct[OF assms] obtain r where
    r: "computeZArray s = ret r" "length r = length s"
    and e: "\<forall>k<length s. 0 \<le> r ! k \<and> z_at s (drop k s) (nat (r ! k))"
    by (auto simp: z_table_def)
  have a: "r ! 0 = int (length s)" if "s \<noteq> []"
  proof -
    from that have "0 < length s" by simp
    with e have "0 \<le> r ! 0 \<and> z_at s (drop 0 s) (nat (r ! 0))" by blast
    then have p: "0 \<le> r ! 0" and z: "z_at s (drop 0 s) (nat (r ! 0))" by blast+
    from z have "nat (r ! 0) \<le> length s" by (simp add: z_at_def pre_pre_def)
    moreover from z have "length s \<le> nat (r ! 0)" by (simp add: z_at_def pre_pre_def)
    ultimately show ?thesis using p by linarith
  qed
  have b: "\<exists>v. r ! i = int v \<and> v \<le> length s - i \<and> take v s = take v (drop i s) \<and>
           (\<forall>k. k \<le> length s - i \<and> take k s = take k (drop i s) \<longrightarrow> k \<le> v)"
    if "0 < i \<and> i < length s" for i
  proof -
    from e that have p: "0 \<le> r ! i" and z: "z_at s (drop i s) (nat (r ! i))" by simp_all
    have pp: "pre_pre s (drop i s) k \<longleftrightarrow> k \<le> length s - i \<and> take k s = take k (drop i s)"
      for k by (auto simp: pre_pre_def)
    from z p show ?thesis unfolding z_at_def pp
      by (intro exI[of _ "nat (r ! i)"]) simp
  qed
  from r a b show ?thesis by blast
qed

theorem computeZArray_entries_witness:
  "length ''aaabaab'' < 2 ^ 31 \<and>
   ''aaabaab'' \<noteq> [] \<and> (0::nat) < 4 \<and> (4::nat) < length ''aaabaab'' \<and>
   computeZArray ''aaabaab'' = ret [7, 2, 1, 0, 2, 1, 0] \<and>
   (\<exists>Z v. computeZArray ''aaabaab'' = ret Z \<and> Z ! 0 = int (length ''aaabaab'') \<and>
      Z ! 4 = int v \<and> v \<le> length ''aaabaab'' - 4 \<and>
      take v ''aaabaab'' = take v (drop 4 ''aaabaab''))"
proof -
  have ne: "''aaabaab'' \<noteq> []" by simp
  have i: "(0::nat) < 4 \<and> (4::nat) < length ''aaabaab''" by simp
  have ev: "computeZArray ''aaabaab'' = ret [7, 2, 1, 0, 2, 1, 0]" by code_simp
  have ls: "length ''aaabaab'' < 2 ^ 31" by simp
  from computeZArray_entries[OF ls] obtain Z where
    l: "computeZArray ''aaabaab'' = ret Z" and
    z: "''aaabaab'' \<noteq> [] \<longrightarrow> Z ! 0 = int (length ''aaabaab'')" and
    f: "\<forall>i. 0 < i \<and> i < length ''aaabaab'' \<longrightarrow>
        (\<exists>v. Z ! i = int v \<and> v \<le> length ''aaabaab'' - i \<and>
           take v ''aaabaab'' = take v (drop i ''aaabaab'') \<and>
           (\<forall>k. k \<le> length ''aaabaab'' - i \<and> take k ''aaabaab'' = take k (drop i ''aaabaab'')
              \<longrightarrow> k \<le> v))" by blast
  from f i obtain v where "Z ! 4 = int v" "v \<le> length ''aaabaab'' - 4"
    "take v ''aaabaab'' = take v (drop 4 ''aaabaab'')" by blast
  moreover from z ne have "Z ! 0 = int (length ''aaabaab'')" by blast
  ultimately show ?thesis using l ne ls i ev by blast
qed

text \<open>
  C5, as stated for every text and every non-empty pattern, fails where a length does not
  fit the 32-bit \<^verbatim>\<open>int\<close> of the source: for a text of \<open>2^32\<close> symbols \<open>a\<close> and the pattern
  \<open>a\<close> the narrowed text length is 0 and \<open>KMPSearch\<close> returns the empty array, so offset 0,
  where a copy of the pattern ends, is no index of the array at all.
\<close>

theorem occurrences_agree_counterexample:
  "KMPSearch (replicate (2 ^ 32) (CHR ''a'')) ''a'' = ret [] \<and>
   ''a'' \<noteq> [] \<and>
   0 < length (replicate (2 ^ 32) (CHR ''a'')) \<and>
   length ''a'' \<le> Suc 0 \<and>
   occurs_at ''a'' (replicate (2 ^ 32) (CHR ''a'')) (Suc 0 - length ''a'') \<and>
   \<not> 0 < length ([] :: int list)"
proof -
  have w: "to_int32 (length (replicate (2 ^ 32) (CHR ''a''))) = 0"
    by (simp add: to_int32_def)
  then have w0: "0 \<le> to_int32 (length (replicate (2 ^ 32) (CHR ''a'')))" by simp
  have p: "0 < to_int32 (length ''a'')" by (simp add: to_int32_def)
  from length_seen[OF w0] w have e: "length (seen (replicate (2 ^ 32) (CHR ''a''))) = 0"
    by simp
  from KMPSearch_seen[OF w0 p] obtain r where
    r: "KMPSearch (replicate (2 ^ 32) (CHR ''a'')) ''a'' = ret r"
      "length r = length (seen (replicate (2 ^ 32) (CHR ''a'')))"
    by blast
  from r(2) e have "r = []" by simp
  with r(1) have "KMPSearch (replicate (2 ^ 32) (CHR ''a'')) ''a'' = ret []" by simp
  moreover have "occurs_at ''a'' (replicate (2 ^ 32) (CHR ''a'')) (Suc 0 - length ''a'')"
    by (simp add: occurs_at_def)
  ultimately show ?thesis by simp
qed

text \<open>
  C5. For every text and every non-empty pattern of length \<open>m\<close>, both shorter than \<open>2^31\<close>
  symbols, the indices \<open>i\<close> at which
  \<open>KMPSearch\<close> records \<open>m\<close> are exactly the offsets at which a full copy of the pattern
  ends, and they are the indices \<open>j\<close> at which \<open>zAlgorithmSearch\<close> records \<open>m\<close>, moved by
  \<open>i = j + m - 1\<close> (that is \<open>j = i - m + 1\<close>).
\<close>

theorem occurrences_agree:
  assumes "pattern \<noteq> []" and "length text < 2 ^ 31" and "length pattern < 2 ^ 31"
  shows "\<exists>lps Z. KMPSearch text pattern = ret lps \<and> zAlgorithmSearch text pattern = ret Z \<and>
           {i. i < length text \<and> lps ! i = int (length pattern)} =
             {i. i < length text \<and> length pattern \<le> Suc i \<and>
                 occurs_at pattern text (Suc i - length pattern)} \<and>
           {i. i < length text \<and> lps ! i = int (length pattern)} =
             (\<lambda>j. j + length pattern - 1) `
               {j. j < length text \<and> Z ! j = int (length pattern)}"
proof -
  let ?m = "length pattern"
  have m: "0 < ?m" using assms(1) by simp
  from KMPSearch_correct[OF assms] obtain lps where
    l: "KMPSearch text pattern = ret lps"
    and le: "\<forall>k<length text. 0 \<le> lps ! k \<and> kmp_at pattern text k (nat (lps ! k))" by blast
  from zAlgorithmSearch_correct[OF assms] obtain Z where
    z: "zAlgorithmSearch text pattern = ret Z"
    and ze: "\<forall>k<length text. 0 \<le> Z ! k \<and> z_at pattern (drop k text) (nat (Z ! k))" by blast
  have kmp: "lps ! i = int ?m \<longleftrightarrow> ?m \<le> Suc i \<and> occurs_at pattern text (Suc i - ?m)"
    if "i < length text" for i
  proof -
    from le that have p: "0 \<le> lps ! i" and k: "kmp_at pattern text i (nat (lps ! i))"
      by blast+
    have "lps ! i = int ?m \<longleftrightarrow> nat (lps ! i) = ?m" using p by linarith
    with kmp_at_full[OF k that] show ?thesis by simp
  qed
  have zs: "Z ! j = int ?m \<longleftrightarrow> occurs_at pattern text j" if "j < length text" for j
  proof -
    from ze that have p: "0 \<le> Z ! j" and k: "z_at pattern (drop j text) (nat (Z ! j))"
      by blast+
    have "j \<le> length text" using that by simp
    from z_at_full[OF k this] have "nat (Z ! j) = ?m \<longleftrightarrow> occurs_at pattern text j" .
    moreover have "Z ! j = int ?m \<longleftrightarrow> nat (Z ! j) = ?m" using p by linarith
    ultimately show ?thesis by simp
  qed
  have s1: "{i. i < length text \<and> lps ! i = int ?m} =
             {i. i < length text \<and> ?m \<le> Suc i \<and> occurs_at pattern text (Suc i - ?m)}"
    using kmp by blast
  have s2: "{i. i < length text \<and> lps ! i = int ?m} =
             (\<lambda>j. j + ?m - 1) ` {j. j < length text \<and> Z ! j = int ?m}"
  proof (intro set_eqI iffI)
    fix i assume "i \<in> {i. i < length text \<and> lps ! i = int ?m}"
    then have i: "i < length text" and e: "lps ! i = int ?m" by simp_all
    from kmp[OF i] e have mi: "?m \<le> Suc i" and oc: "occurs_at pattern text (Suc i - ?m)"
      by simp_all
    have j: "Suc i - ?m < length text" using i m by linarith
    from zs[OF j] oc have "Z ! (Suc i - ?m) = int ?m" by simp
    moreover have "i = (Suc i - ?m) + ?m - 1" using mi by simp
    ultimately show "i \<in> (\<lambda>j. j + ?m - 1) ` {j. j < length text \<and> Z ! j = int ?m}"
      using j by blast
  next
    fix i assume "i \<in> (\<lambda>j. j + ?m - 1) ` {j. j < length text \<and> Z ! j = int ?m}"
    then obtain j where ij: "i = j + ?m - 1" and j: "j < length text"
      and e: "Z ! j = int ?m" by blast
    from zs[OF j] e have oc: "occurs_at pattern text j" by simp
    then have "j + ?m \<le> length text" by (simp add: occurs_at_def)
    then have i: "i < length text" using ij m by linarith
    have mi: "?m \<le> Suc i" using ij m by linarith
    have "Suc i - ?m = j" using ij m by linarith
    with kmp[OF i] mi oc have "lps ! i = int ?m" by simp
    with i show "i \<in> {i. i < length text \<and> lps ! i = int ?m}" by simp
  qed
  from l z s1 s2 show ?thesis by blast
qed

theorem occurrences_agree_witness:
  "''abab'' \<noteq> [] \<and> length ''ababab'' < 2 ^ 31 \<and> length ''abab'' < 2 ^ 31 \<and>
   KMPSearch ''ababab'' ''abab'' = ret [1, 2, 3, 4, 3, 4] \<and>
   zAlgorithmSearch ''ababab'' ''abab'' = ret [4, 0, 4, 0, 2, 0] \<and>
   (\<exists>lps Z. KMPSearch ''ababab'' ''abab'' = ret lps \<and>
      zAlgorithmSearch ''ababab'' ''abab'' = ret Z \<and>
      {i. i < length ''ababab'' \<and> lps ! i = int (length ''abab'')} =
        (\<lambda>j. j + length ''abab'' - 1) `
          {j. j < length ''ababab'' \<and> Z ! j = int (length ''abab'')})"
proof -
  have ne: "''abab'' \<noteq> []" by simp
  have ev: "KMPSearch ''ababab'' ''abab'' = ret [1, 2, 3, 4, 3, 4]" by code_simp
  have ez: "zAlgorithmSearch ''ababab'' ''abab'' = ret [4, 0, 4, 0, 2, 0]" by code_simp
  have lt: "length ''ababab'' < 2 ^ 31" by simp
  have lp: "length ''abab'' < 2 ^ 31" by simp
  from occurrences_agree[OF ne lt lp] ne lt lp ev ez show ?thesis by blast
qed

text \<open>
  C6. For every combination of inputs (empty ones, a pattern longer than the text,
  all-equal symbols and lengths beyond the 32-bit \<^verbatim>\<open>int\<close> included) no access of any of
  the four functions is out of bounds: no call ends in the error \<open>OutOfBounds\<close>, which is
  what a failed checked access gives. Every call returns a vector, or throws where a
  vector is built from a negative narrowed length; with lengths below \<open>2^31\<close> every call
  returns a vector.
\<close>

theorem no_out_of_bounds:
  "computeLPS pattern \<noteq> Some (Inl OutOfBounds) \<and>
   KMPSearch text pattern \<noteq> Some (Inl OutOfBounds) \<and>
   computeZArray s \<noteq> Some (Inl OutOfBounds) \<and>
   zAlgorithmSearch text pattern \<noteq> Some (Inl OutOfBounds) \<and>
   ((\<exists>r. computeLPS pattern = Some (Inr r)) \<or>
      computeLPS pattern = Some (Inl LengthError)) \<and>
   ((\<exists>r. KMPSearch text pattern = Some (Inr r)) \<or>
      KMPSearch text pattern = Some (Inl LengthError)) \<and>
   ((\<exists>r. computeZArray s = Some (Inr r)) \<or>
      computeZArray s = Some (Inl LengthError)) \<and>
   ((\<exists>r. zAlgorithmSearch text pattern = Some (Inr r)) \<or>
      zAlgorithmSearch text pattern = Some (Inl LengthError)) \<and>
   (length pattern < 2 ^ 31 \<and> length text < 2 ^ 31 \<and> length s < 2 ^ 31 \<longrightarrow>
      (\<exists>r. computeLPS pattern = Some (Inr r)) \<and>
      (\<exists>r. KMPSearch text pattern = Some (Inr r)) \<and>
      (\<exists>r. computeZArray s = Some (Inr r)) \<and>
      (\<exists>r. zAlgorithmSearch text pattern = Some (Inr r)))"
proof -
  note a = computeLPS_outcome[of pattern]
  note b = KMPSearch_outcome[of "text" pattern]
  note c = computeZArray_outcome[of s]
  note d = zAlgorithmSearch_outcome[of "text" pattern]
  have a': "computeLPS pattern \<noteq> Some (Inl OutOfBounds)" using a by auto
  have b': "KMPSearch text pattern \<noteq> Some (Inl OutOfBounds)" using b by auto
  have c': "computeZArray s \<noteq> Some (Inl OutOfBounds)" using c by auto
  have d': "zAlgorithmSearch text pattern \<noteq> Some (Inl OutOfBounds)" using d by auto
  have e: "(\<exists>r. computeLPS pattern = Some (Inr r)) \<and>
      (\<exists>r. KMPSearch text pattern = Some (Inr r)) \<and>
      (\<exists>r. computeZArray s = Some (Inr r)) \<and>
      (\<exists>r. zAlgorithmSearch text pattern = Some (Inr r))"
    if l: "length pattern < 2 ^ 31 \<and> length text < 2 ^ 31 \<and> length s < 2 ^ 31"
  proof -
    from l have lp: "length pattern < 2 ^ 31" and lt: "length text < 2 ^ 31"
      and ls: "length s < 2 ^ 31" by simp_all
    have "\<exists>r. computeLPS pattern = Some (Inr r)"
      using computeLPS_correct[OF lp] by (auto simp: ret_def)
    moreover have "\<exists>r. computeZArray s = Some (Inr r)"
      using computeZArray_correct[OF ls] by (auto simp: ret_def)
    moreover have "\<exists>r. KMPSearch text pattern = Some (Inr r)"
    proof (cases "pattern = []")
      case True
      then show ?thesis by (simp add: KMPSearch_def to_int32_def ret_def)
    next
      case False
      from KMPSearch_correct[OF False lt lp] show ?thesis by (auto simp: ret_def)
    qed
    moreover have "\<exists>r. zAlgorithmSearch text pattern = Some (Inr r)"
    proof (cases "pattern = []")
      case True
      have "0 \<le> to_int32 (length text)" using lt by (simp add: to_int32_small)
      moreover have "to_int32 (length pattern) = 0" using True by (simp add: to_int32_def)
      ultimately show ?thesis using zAlgorithmSearch_empty[of "text" pattern]
        by (simp add: ret_def)
    next
      case False
      from zAlgorithmSearch_correct[OF False lt lp] show ?thesis by (auto simp: ret_def)
    qed
    ultimately show ?thesis by blast
  qed
  from a b c d a' b' c' d' e show ?thesis by blast
qed

theorem no_out_of_bounds_witness:
  "length ''abab'' < 2 ^ 31 \<and> length ''ababab'' < 2 ^ 31 \<and> length ''aaabaab'' < 2 ^ 31 \<and>
   (\<exists>r. computeLPS ''abab'' = Some (Inr r)) \<and>
   (\<exists>r. KMPSearch ''ababab'' ''abab'' = Some (Inr r)) \<and>
   (\<exists>r. computeZArray ''aaabaab'' = Some (Inr r)) \<and>
   (\<exists>r. zAlgorithmSearch ''ababab'' ''abab'' = Some (Inr r)) \<and>
   KMPSearch ''ababab'' ''abab'' \<noteq> Some (Inl OutOfBounds)"
proof -
  have l: "length ''abab'' < 2 ^ 31 \<and> length ''ababab'' < 2 ^ 31 \<and>
           length ''aaabaab'' < 2 ^ 31" by simp
  from no_out_of_bounds[of "''abab''" "''ababab''" "''aaabaab''"] l show ?thesis by blast
qed

text \<open>
  C7, as stated for every text, fails in its last part where the text length does not
  fit the 32-bit \<^verbatim>\<open>int\<close> of the source: for a text of \<open>2^32\<close> symbols and the empty
  pattern \<open>zAlgorithmSearch\<close> builds its array from the narrowed length 0 and returns the
  empty array, not \<open>2^32\<close> zeros.
\<close>

theorem empty_inputs_counterexample:
  "zAlgorithmSearch (replicate (2 ^ 32) (CHR ''a'')) [] = ret [] \<and>
   ([] :: int list) \<noteq> replicate (length (replicate (2 ^ 32) (CHR ''a''))) 0"
proof -
  have w: "to_int32 (length (replicate (2 ^ 32) (CHR ''a''))) = 0"
    by (simp add: to_int32_def)
  have "zAlgorithmSearch (replicate (2 ^ 32) (CHR ''a'')) [] = ret []"
    unfolding zAlgorithmSearch_def Let_def w by (simp add: to_int32_def new_vector_def bind_o_ret)
  moreover have "([] :: int list) \<noteq> replicate (length (replicate (2 ^ 32) (CHR ''a''))) 0"
    by simp
  ultimately show ?thesis by simp
qed

text \<open>
  C7. Empty inputs: \<open>computeLPS\<close> of the empty string is the empty array, \<open>computeZArray\<close>
  of the empty string is the empty array, \<open>KMPSearch\<close> with an empty pattern is the empty
  array for every text, and \<open>zAlgorithmSearch\<close> with an empty pattern is, for every text
  shorter than \<open>2^31\<close> symbols, an array of zeros as long as the text.
\<close>

theorem empty_inputs:
  "computeLPS [] = ret [] \<and>
   computeZArray [] = ret [] \<and>
   KMPSearch text [] = ret [] \<and>
   (length text < 2 ^ 31 \<longrightarrow>
      zAlgorithmSearch text [] = ret (replicate (length text) 0))"
proof -
  have z0: "to_int32 0 = 0" by (simp add: to_int32_def)
  then have z: "to_int32 (length ([] :: string)) = 0" by simp
  have "computeLPS_loop [] 0 1 0 [] = ret []"
    by (subst computeLPS_loop.simps) simp
  then have "computeLPS [] = ret []"
    by (simp add: computeLPS_def Let_def z0 new_vector_def bind_o_ret)
  moreover have "computeZArray [] = ret []"
    by (simp add: computeZArray_def z0)
  moreover have "KMPSearch text [] = ret []"
    by (simp add: KMPSearch_def z0)
  moreover have "zAlgorithmSearch text [] = ret (replicate (length text) 0)"
    if l: "length text < 2 ^ 31"
  proof -
    have "0 \<le> to_int32 (length text)" using l by (simp add: to_int32_small)
    from zAlgorithmSearch_empty[OF this z] show ?thesis by (simp add: seen_small[OF l])
  qed
  ultimately show ?thesis by blast
qed

theorem empty_inputs_witness:
  "length ''abc'' < 2 ^ 31 \<and> KMPSearch ''abc'' [] = ret [] \<and>
   zAlgorithmSearch ''abc'' [] = ret [0, 0, 0]"
proof -
  have l: "length ''abc'' < 2 ^ 31" by simp
  from empty_inputs[of "''abc''"] l show ?thesis by (simp add: numeral_3_eq_3)
qed

text \<open>
  C8. Every call of each of the four functions ends: none of the loops (the fallback
  loops of \<open>computeLPS\<close> and \<open>KMPSearch\<close>, the window loops of \<open>computeZArray\<close> and
  \<open>zAlgorithmSearch\<close>) runs forever, so no result is \<open>None\<close>.
\<close>

theorem all_calls_return:
  "(\<exists>r. computeLPS pattern = Some r) \<and>
   (\<exists>r. KMPSearch text pattern = Some r) \<and>
   (\<exists>r. computeZArray s = Some r) \<and>
   (\<exists>r. zAlgorithmSearch text pattern = Some r)"
proof -
  from computeLPS_outcome[of pattern] have "\<exists>r. computeLPS pattern = Some r" by auto
  moreover from KMPSearch_outcome[of "text" pattern]
  have "\<exists>r. KMPSearch text pattern = Some r" by auto
  moreover from computeZArray_outcome[of s] have "\<exists>r. computeZArray s = Some r" by auto
  moreover from zAlgorithmSearch_outcome[of "text" pattern]
  have "\<exists>r. zAlgorithmSearch text pattern = Some r" by auto
  ultimately show ?thesis by blast
qed

text \<open>
  C9. On the text \<open>ABABDABACDABABCABAB\<close> and the pattern \<open>ABABCABAB\<close>,
  \<open>zAlgorithmSearch\<close> returns \<open>[4,0,2,0,0,3,0,1,0,0,9,0,2,0,0,4,0,2,0]\<close>, and the only
  index whose entry is the pattern length 9 is 10.
\<close>

theorem zAlgorithmSearch_scenario:
  "zAlgorithmSearch ''ABABDABACDABABCABAB'' ''ABABCABAB'' =
     ret [4, 0, 2, 0, 0, 3, 0, 1, 0, 0, 9, 0, 2, 0, 0, 4, 0, 2, 0] \<and>
   filter (\<lambda>i. [4, 0, 2, 0, 0, 3, 0, 1, 0, 0, 9, 0, 2, 0, 0, 4, 0, 2, 0] ! i =
                  int (length ''ABABCABAB''))
     [0 ..< length ''ABABDABACDABABCABAB''] = [10]"
proof -
  have "zAlgorithmSearch ''ABABDABACDABABCABAB'' ''ABABCABAB'' =
     ret [4, 0, 2, 0, 0, 3, 0, 1, 0, 0, 9, 0, 2, 0, 0, 4, 0, 2, 0]"
    by code_simp
  moreover have "filter (\<lambda>i. [4, 0, 2, 0, 0, 3, 0, 1, 0, 0, 9, 0, 2, 0, 0, 4, 0, 2, 0] ! i =
                  int (length ''ABABCABAB''))
     [0 ..< length ''ABABDABACDABABCABAB''] = [10::nat]"
    by code_simp
  ultimately show ?thesis by blast
qed




end
